theory Spec2Isabelle
  imports Main
begin

section \<open>Python strings and builtins used by cam.py\<close>

text \<open>
  A Python \<open>str\<close> is a sequence of code points. The model reads a \<^typ>\<open>string\<close> as a
  Python string whose code points lie in U+0000 .. U+00FF, one \<^typ>\<open>char\<close> per code
  point. In that range the character classes of the builtins are small and are written
  out below.
\<close>

datatype exn =
    ValueError_literal string  \<comment> \<open>\<open>int(s)\<close>: invalid literal for int() with base 10\<close>
  | ValueError_empty_max       \<comment> \<open>\<open>max()\<close> of an empty sequence without default\<close>
  | IndexError                 \<comment> \<open>list index out of range\<close>
  | Raised string              \<comment> \<open>an exception of the OS or the camera library; the payload is \<open>str(e)\<close>\<close>

definition code :: "char \<Rightarrow> nat" where
  "code c = of_char c"

text \<open>\<open>s.startswith(p)\<close>\<close>

definition startswith :: "string \<Rightarrow> string \<Rightarrow> bool" where
  "startswith s p = (take (length p) s = p)"

text \<open>\<open>sub in s\<close> for strings: \<open>sub\<close> occurs as a contiguous slice of \<open>s\<close>.\<close>

fun str_in :: "string \<Rightarrow> string \<Rightarrow> bool" where
  "str_in sub [] = (sub = [])"
| "str_in sub (c # cs) = (startswith (c # cs) sub \<or> str_in sub cs)"

text \<open>
  \<open>s.lower()\<close>: in U+0000 .. U+00FF the cased upper-case letters are A-Z, U+00C0 .. U+00D6
  and U+00D8 .. U+00DE; each maps to the code point 32 above it.
\<close>

definition lower_char :: "char \<Rightarrow> char" where
  "lower_char c =
     (let n = code c
      in if (65 \<le> n \<and> n \<le> 90) \<or> (192 \<le> n \<and> n \<le> 214) \<or> (216 \<le> n \<and> n \<le> 222)
         then char_of (n + 32) else c)"

definition lower :: "string \<Rightarrow> string" where
  "lower s = map lower_char s"

text \<open>
  \<open>s.split(sep)\<close> with a one-character separator: always a non-empty list; the pieces
  are the maximal runs between separators.
\<close>

fun split :: "char \<Rightarrow> string \<Rightarrow> string list" where
  "split sep [] = [[]]"
| "split sep (c # cs) =
     (if c = sep then [] # split sep cs
      else (case split sep cs of
              [] \<Rightarrow> [[c]]
            | w # ws \<Rightarrow> (c # w) # ws))"

text \<open>\<open>xs[i]\<close> for a non-negative index: raises IndexError out of range.\<close>

definition index :: "'a list \<Rightarrow> nat \<Rightarrow> exn + 'a" where
  "index xs i = (if i < length xs then Inr (xs ! i) else Inl IndexError)"

text \<open>
  \<open>str.isdigit\<close>: true when the string is non-empty and every character has the Unicode
  property Numeric_Type=Digit or Decimal. In U+0000 .. U+00FF these are 0-9 and the
  superscript digits U+00B2, U+00B3 and U+00B9.
\<close>

definition is_decimal_char :: "char \<Rightarrow> bool" where
  "is_decimal_char c = (48 \<le> code c \<and> code c \<le> 57)"

definition is_digit_char :: "char \<Rightarrow> bool" where
  "is_digit_char c = (is_decimal_char c \<or> code c = 178 \<or> code c = 179 \<or> code c = 185)"

definition isdigit :: "string \<Rightarrow> bool" where
  "isdigit s = (s \<noteq> [] \<and> list_all is_digit_char s)"

text \<open>
  \<open>int(s)\<close> in base 10: surrounding whitespace is stripped, one sign is allowed, then
  decimal digits, where single underscores may separate digits. Characters that are
  digits but not decimals (the superscripts) are rejected with ValueError. The
  whitespace that \<open>int\<close> strips in U+0000 .. U+00FF is U+0009 .. U+000D, the space,
  U+0085 and U+00A0; the separators U+001C .. U+001F are not stripped.
\<close>

definition is_space_char :: "char \<Rightarrow> bool" where
  "is_space_char c =
     (let n = code c
      in (9 \<le> n \<and> n \<le> 13) \<or> n = 32 \<or> n = 133 \<or> n = 160)"

definition strip :: "string \<Rightarrow> string" where
  "strip s = rev (dropWhile is_space_char (rev (dropWhile is_space_char s)))"

fun digits_ok :: "bool \<Rightarrow> string \<Rightarrow> bool" where
  "digits_ok prev_digit [] = prev_digit"
| "digits_ok prev_digit (c # cs) =
     (if is_decimal_char c then digits_ok True cs
      else if c = CHR ''_'' \<and> prev_digit then digits_ok False cs
      else False)"

definition dec_value :: "string \<Rightarrow> int" where
  "dec_value s = foldl (\<lambda>acc c. 10 * acc + (int (code c) - 48)) 0 s"

definition py_int :: "string \<Rightarrow> exn + int" where
  "py_int s =
     (let t = strip s;
          neg = (t \<noteq> [] \<and> hd t = CHR ''-'');
          body = (if t \<noteq> [] \<and> (hd t = CHR ''-'' \<or> hd t = CHR ''+'') then tl t else t)
      in if digits_ok False body
         then Inr ((if neg then - 1 else 1) * dec_value (filter (\<lambda>c. c \<noteq> CHR ''_'') body))
         else Inl (ValueError_literal s))"

text \<open>\<open>max(ns, default=d)\<close> on integers.\<close>

definition max_default :: "int list \<Rightarrow> int \<Rightarrow> int" where
  "max_default ns d = (case ns of [] \<Rightarrow> d | n # rest \<Rightarrow> foldl max n rest)"

text \<open>
  \<open>max(xs, key=k)\<close>: the keys are computed in order, so the first key that raises ends
  the call; among equal keys the first element wins.
\<close>

fun max_key_loop :: "('a \<Rightarrow> exn + int) \<Rightarrow> 'a list \<Rightarrow> 'a \<Rightarrow> int \<Rightarrow> exn + 'a" where
  "max_key_loop key [] best bk = Inr best"
| "max_key_loop key (x # xs) best bk =
     (case key x of
        Inl e \<Rightarrow> Inl e
      | Inr k \<Rightarrow> if k > bk then max_key_loop key xs x k else max_key_loop key xs best bk)"

definition max_key :: "('a \<Rightarrow> exn + int) \<Rightarrow> 'a list \<Rightarrow> exn + 'a" where
  "max_key key xs =
     (case xs of
        [] \<Rightarrow> Inl ValueError_empty_max
      | x # rest \<Rightarrow> (case key x of Inl e \<Rightarrow> Inl e | Inr k \<Rightarrow> max_key_loop key rest x k))"

text \<open>\<open>str(n)\<close> for an integer, as the f-string \<open>f'capture_{n}.jpg'\<close> formats it.\<close>

fun str_nat :: "nat \<Rightarrow> string" where
  "str_nat n = (if n < 10 then [char_of (48 + n)] else str_nat (n div 10) @ [char_of (48 + n mod 10)])"

definition str_int :: "int \<Rightarrow> string" where
  "str_int i = (if i < 0 then CHR ''-'' # str_nat (nat (- i)) else str_nat (nat i))"

section \<open>Scanning the capture directory\<close>

text \<open>
  The expression \<open>f.split('_')[1].split('.')[0]\<close>, which both scanning functions
  evaluate on a file name.
\<close>

definition component :: "string \<Rightarrow> exn + string" where
  "component f =
     (case index (split (CHR ''_'') f) 1 of
        Inl e \<Rightarrow> Inl e
      | Inr p \<Rightarrow> index (split (CHR ''.'') p) 0)"

text \<open>
  The list comprehension of line 79, over the names already filtered by the prefix:
  for each name the condition is evaluated, then the element expression, in order.
\<close>

fun numbers :: "string list \<Rightarrow> exn + int list" where
  "numbers [] = Inr []"
| "numbers (f # fs) =
     (case component f of
        Inl e \<Rightarrow> Inl e
      | Inr p \<Rightarrow>
          if isdigit p then
            (case component f of
               Inl e \<Rightarrow> Inl e
             | Inr q \<Rightarrow>
                 (case py_int q of
                    Inl e \<Rightarrow> Inl e
                  | Inr n \<Rightarrow> (case numbers fs of Inl e \<Rightarrow> Inl e | Inr ns \<Rightarrow> Inr (n # ns))))
          else numbers fs)"

text \<open>
  \<open>get_next_capture_number\<close> on the result of \<open>os.listdir\<close> of the capture folder.
\<close>

definition get_next_capture_number :: "string list \<Rightarrow> exn + int" where
  "get_next_capture_number listing =
     (let existing_files = filter (\<lambda>f. startswith f ''capture_'') listing
      in case numbers existing_files of
           Inl e \<Rightarrow> Inl e
         | Inr ns \<Rightarrow> Inr (max_default ns 0 + 1))"

section \<open>The camera, the file system and HTTP responses\<close>

text \<open>
  The capture configurations handed to the camera library: which constructor built the
  configuration, the \<open>main={"size": ...}\<close> argument when one is given, and the
  \<open>controls\<close> argument.
\<close>

datatype af_mode = AfModeAuto | AfModeContinuous
datatype af_range = AfRangeNormal
datatype af_metering = AfMeteringWindows

datatype control =
    AfMode af_mode
  | AfRange af_range
  | AfMetering af_metering
  | AfWindows "(int \<times> int \<times> int \<times> int) list"
  | FrameDurationLimits "int \<times> int"

datatype config_kind = VideoConfiguration | StillConfiguration

record config =
  kind :: config_kind
  main_size :: "(int \<times> int) option"
  controls :: "control list"

definition create_video_configuration :: "(int \<times> int) option \<Rightarrow> control list \<Rightarrow> config" where
  "create_video_configuration sz cs = \<lparr>kind = VideoConfiguration, main_size = sz, controls = cs\<rparr>"

definition create_still_configuration :: "(int \<times> int) option \<Rightarrow> control list \<Rightarrow> config" where
  "create_still_configuration sz cs = \<lparr>kind = StillConfiguration, main_size = sz, controls = cs\<rparr>"

text \<open>
  Objects bound to module-level names whose \<open>str()\<close> the service sends out: the value
  returned by \<open>global_camera_info()\<close>, given by its string form, and a function object,
  given by its name and the address the interpreter prints for it.
\<close>

datatype pyobj =
    CameraList string
  | FunctionObj string string

fun py_str :: "pyobj \<Rightarrow> string" where
  "py_str (CameraList s) = s"
| "py_str (FunctionObj name addr) = ''<function '' @ name @ '' at 0x'' @ addr @ ''>''"

text \<open>The module-level names that the request handlers read.\<close>

record globals =
  g_camera_info :: pyobj
  g_is_v3 :: bool
  g_video_config :: config
  g_still_config :: config

text \<open>
  The module body, top to bottom, for a camera whose \<open>global_camera_info()\<close> has the
  string form \<open>ident\<close>. Each binding is one assignment of the source; a later binding of
  a name shadows the earlier one, as re-assignment does. The window arithmetic
  \<open>int(width * 0.1)\<close> and \<open>int((width - window_width) / 2)\<close> is exact at the two
  constants and is written with integer division. The \<open>def camera_info()\<close> of the
  route handler binds the module-level name \<open>camera_info\<close> again (the route decorator
  returns the function it is given).
\<close>

definition module_globals :: "string \<Rightarrow> string \<Rightarrow> globals" where
  "module_globals ident addr =
     (let camera_info = CameraList ident;
          is_v3 = str_in ''imx708'' (lower (py_str camera_info));
          (video_config, still_config) =
            (if is_v3 then
               (let (preview_config, still_config) =
                  (if is_v3 then
                     (let width = 1920; height = 1080;
                          window_width = width div 10;
                          window_height = height div 10;
                          window_x = (width - window_width) div 2;
                          window_y = (height - window_height) div 2;
                          preview_config = create_video_configuration (Some (width, height))
                            [AfMode AfModeContinuous, AfRange AfRangeNormal,
                             AfMetering AfMeteringWindows,
                             AfWindows [(window_x, window_y, window_width, window_height)],
                             FrameDurationLimits (100000, 100000)];
                          still_config = create_still_configuration (Some (4608, 2592))
                            [AfMode AfModeAuto]
                      in (preview_config, still_config))
                   else
                     (let preview_config = create_video_configuration (Some (1640, 1232)) [];
                          still_config = create_still_configuration (Some (4056, 3040)) []
                      in (preview_config, still_config)));
                    video_config = preview_config;
                    still_config = create_still_configuration (Some (4608, 2592))
                      [AfMode AfModeAuto];
                    video_config = preview_config
                in (video_config, still_config))
             else
               (let video_config = create_video_configuration (Some (640, 480)) [];
                    still_config = create_still_configuration None []
                in (video_config, still_config)));
          camera_info = FunctionObj ''camera_info'' addr
      in \<lparr>g_camera_info = camera_info, g_is_v3 = is_v3,
          g_video_config = video_config, g_still_config = still_config\<rparr>)"

text \<open>
  What a handler touches outside the process: the names in the capture folder in the
  order \<open>os.listdir\<close> yields them, whether \<open>os.listdir\<close> raises, and the camera. Every
  call of the camera library may raise; \<open>cam_fault w k\<close> is the \<open>str(e)\<close> of the
  exception raised by the call made after \<open>k\<close> earlier calls, if it raises. The trace
  records every call attempted, with its outcome, and every sleep.
\<close>

datatype cam_call = Stop | Configure config | Start | CaptureFile string

datatype event =
    Cam cam_call "string option"
  | Sleep_ms nat

record world =
  files :: "string list"
  listdir_fault :: "string option"
  cam_fault :: "nat \<Rightarrow> string option"
  trace :: "event list"

fun is_cam :: "event \<Rightarrow> bool" where
  "is_cam (Cam c r) = True"
| "is_cam (Sleep_ms n) = False"

definition calls :: "world \<Rightarrow> nat" where
  "calls w = length (filter is_cam (trace w))"

type_synonym 'a io = "world \<Rightarrow> (exn + 'a) \<times> world"

definition return :: "'a \<Rightarrow> 'a io" where
  "return x w = (Inr x, w)"

text \<open>Sequencing: an exception raised by the first statement skips the rest.\<close>

definition then_do :: "'a io \<Rightarrow> ('a \<Rightarrow> 'b io) \<Rightarrow> 'b io" where
  "then_do m k w = (case m w of (Inl e, w') \<Rightarrow> (Inl e, w') | (Inr x, w') \<Rightarrow> k x w')"

definition picam2 :: "cam_call \<Rightarrow> unit io" where
  "picam2 c w =
     (let r = cam_fault w (calls w);
          w' = w\<lparr>trace := trace w @ [Cam c r]\<rparr>
      in case r of None \<Rightarrow> (Inr (), w') | Some m \<Rightarrow> (Inl (Raised m), w'))"

definition time_sleep_ms :: "nat \<Rightarrow> unit io" where
  "time_sleep_ms n w = (Inr (), w\<lparr>trace := trace w @ [Sleep_ms n]\<rparr>)"

definition os_listdir :: "string list io" where
  "os_listdir w =
     (case listdir_fault w of Some m \<Rightarrow> (Inl (Raised m), w) | None \<Rightarrow> (Inr (files w), w))"

text \<open>\<open>os.path.join(a, b)\<close> on POSIX.\<close>

definition path_join :: "string \<Rightarrow> string \<Rightarrow> string" where
  "path_join a b =
     (if startswith b ''/'' then b
      else if a = [] \<or> last a = CHR ''/'' then a @ b
      else a @ ''/'' @ b)"

definition CAPTURE_FOLDER :: string where
  "CAPTURE_FOLDER = ''captures''"

text \<open>
  JSON bodies as the dictionaries given to \<open>jsonify\<close>. \<open>JStrOf e\<close> is the string
  \<open>str(e)\<close> of an exception.
\<close>

datatype jval = JBool bool | JStr string | JStrOf exn

datatype response = Response nat "(string \<times> jval) list"

section \<open>The request handlers\<close>

text \<open>\<open>get_next_capture_number()\<close> as the handler calls it: the listing is read first.\<close>

definition get_next_capture_number_io :: "int io" where
  "get_next_capture_number_io =
     then_do os_listdir (\<lambda>listing w. (get_next_capture_number listing, w))"

text \<open>The body of the \<open>try\<close> of \<open>capture()\<close>, up to the value given to \<open>jsonify\<close>.\<close>

definition capture_try :: "globals \<Rightarrow> string io" where
  "capture_try g =
     then_do get_next_capture_number_io (\<lambda>n.
       let filename = ''capture_'' @ str_int n @ ''.jpg'';
           filepath = path_join CAPTURE_FOLDER filename
       in
       then_do (picam2 Stop) (\<lambda>_.
       then_do (picam2 (Configure (g_still_config g))) (\<lambda>_.
       then_do (picam2 Start) (\<lambda>_.
       then_do (if g_is_v3 g then time_sleep_ms 500 else return ()) (\<lambda>_.
       then_do (picam2 (CaptureFile filepath)) (\<lambda>_.
       then_do (picam2 Stop) (\<lambda>_.
       then_do (picam2 (Configure (g_video_config g))) (\<lambda>_.
       then_do (picam2 Start) (\<lambda>_.
       return filename)))))))))"

text \<open>The inner \<open>try\<close> of the handler's \<open>except\<close> block; its bare \<open>except: pass\<close> is in \<open>capture\<close>.\<close>

definition capture_recover :: "globals \<Rightarrow> unit io" where
  "capture_recover g =
     then_do (picam2 Stop) (\<lambda>_.
     then_do (picam2 (Configure (g_video_config g))) (\<lambda>_.
     picam2 Start))"

definition capture :: "globals \<Rightarrow> world \<Rightarrow> response \<times> world" where
  "capture g w =
     (case capture_try g w of
        (Inr filename, w') \<Rightarrow>
          (Response 200 [(''success'', JBool True), (''filename'', JStr filename)], w')
      | (Inl e, w') \<Rightarrow>
          (case capture_recover g w' of
             (_, w'') \<Rightarrow> (Response 500 [(''success'', JBool False), (''error'', JStrOf e)], w'')))"

text \<open>The key function of \<open>latest_capture\<close>: \<open>int(x.split('_')[1].split('.')[0])\<close>.\<close>

definition capture_key :: "string \<Rightarrow> exn + int" where
  "capture_key x = (case component x of Inl e \<Rightarrow> Inl e | Inr p \<Rightarrow> py_int p)"

definition latest_capture_try :: "response io" where
  "latest_capture_try =
     then_do os_listdir (\<lambda>listing.
       let files = filter (\<lambda>f. startswith f ''capture_'') listing
       in if files = []
          then return (Response 404 [(''success'', JBool False), (''error'', JStr ''No captures found'')])
          else (\<lambda>w. case max_key capture_key files of
                       Inl e \<Rightarrow> (Inl e, w)
                     | Inr latest \<Rightarrow>
                         (Inr (Response 200 [(''success'', JBool True), (''filename'', JStr latest)]), w)))"

definition latest_capture :: "world \<Rightarrow> response \<times> world" where
  "latest_capture w =
     (case latest_capture_try w of
        (Inr r, w') \<Rightarrow> (r, w')
      | (Inl e, w') \<Rightarrow> (Response 500 [(''success'', JBool False), (''error'', JStrOf e)], w'))"

text \<open>The handler of \<open>/camera_info\<close>; the names are looked up when the request is served.\<close>

definition camera_info_route :: "globals \<Rightarrow> response" where
  "camera_info_route g =
     Response 200
       [(''is_v3'', JBool (g_is_v3 g)),
        (''info'', JStr (py_str (g_camera_info g))),
        (''type'', JStr (if g_is_v3 g then ''Pi Camera V3'' else ''HQ or other camera''))]"

section \<open>Names that the scan counts\<close>

text \<open>
  For a name that starts with \<open>capture_\<close> the expression \<open>component\<close> yields the
  characters after that prefix up to the next underscore or dot, or to the end of the
  name. A name is counted by \<open>get_next_capture_number\<close> when it has the prefix and this
  part passes \<open>isdigit\<close>.
\<close>

definition name_component :: "string \<Rightarrow> string" where
  "name_component f = takeWhile (\<lambda>c. c \<noteq> CHR ''_'' \<and> c \<noteq> CHR ''.'') (drop 8 f)"

definition counted :: "string \<Rightarrow> bool" where
  "counted f = (startswith f ''capture_'' \<and> isdigit (name_component f))"

text \<open>
  The part of a name between its first underscore and the following dot, the reading of
  the numeric part that ignores a second underscore.
\<close>

definition underscore_to_dot :: "string \<Rightarrow> string" where
  "underscore_to_dot f =
     takeWhile (\<lambda>c. c \<noteq> CHR ''.'') (drop 1 (dropWhile (\<lambda>c. c \<noteq> CHR ''_'') f))"

section \<open>Attempts at a sequence of camera calls\<close>

text \<open>
  A list of events is an attempt at a list of camera calls when it makes those calls
  in order, every call but the last one made has succeeded, and the calls stop before
  the end of the list only after a call that raised.
\<close>

fun attempt_of :: "cam_call list \<Rightarrow> event list \<Rightarrow> bool" where
  "attempt_of [] es = (es = [])"
| "attempt_of (c # cs) [] = False"
| "attempt_of (c # cs) (Sleep_ms n # es) = False"
| "attempt_of (c # cs) (Cam c' None # es) = (c' = c \<and> attempt_of cs es)"
| "attempt_of (c # cs) (Cam c' (Some m) # es) = (c' = c \<and> es = [])"

section \<open>Properties of the string functions\<close>

declare str_nat.simps [simp del]

lemma split_not_Nil: "split sep s \<noteq> []"
  by (induction s) (auto split: list.splits)

lemma hd_split: "hd (split sep s) = takeWhile (\<lambda>c. c \<noteq> sep) s"
  using split_not_Nil [of sep]
  by (induction s) (auto split: list.splits)

lemma index_0_split: "index (split sep s) 0 = Inr (takeWhile (\<lambda>c. c \<noteq> sep) s)"
  using split_not_Nil [of sep s] hd_split [of sep s]
  by (cases "split sep s") (auto simp: index_def)

lemma takeWhile_takeWhile: "takeWhile P (takeWhile Q xs) = takeWhile (\<lambda>x. Q x \<and> P x) xs"
  by (induction xs) auto

lemma startswith_capture: "startswith f ''capture_'' \<longleftrightarrow> (\<exists>r. f = ''capture_'' @ r)"
proof
  assume "startswith f ''capture_''"
  then have "f = ''capture_'' @ drop (length ''capture_'') f"
    unfolding startswith_def by (metis append_take_drop_id)
  then show "\<exists>r. f = ''capture_'' @ r" ..
next
  assume "\<exists>r. f = ''capture_'' @ r"
  then show "startswith f ''capture_''" by (auto simp: startswith_def)
qed

lemma split_capture: "split (CHR ''_'') (''capture_'' @ r) = ''capture'' # split (CHR ''_'') r"
  using split_not_Nil [of "CHR ''_''" r]
  by (cases "split (CHR ''_'') r") simp_all

lemma component_capture:
  assumes "startswith f ''capture_''"
  shows "component f = Inr (name_component f)"
proof -
  from assms obtain r where f: "f = ''capture_'' @ r" by (auto simp: startswith_capture)
  have "index (split (CHR ''_'') f) 1 = Inr (takeWhile (\<lambda>c. c \<noteq> CHR ''_'') r)"
    using split_not_Nil [of "CHR ''_''" r] hd_split [of "CHR ''_''" r]
    by (cases "split (CHR ''_'') r") (simp_all add: f split_capture index_def)
  then show ?thesis
    by (simp add: component_def index_0_split takeWhile_takeWhile name_component_def f)
qed

lemma decimal_not_space: "is_decimal_char c \<Longrightarrow> \<not> is_space_char c"
  by (auto simp: is_decimal_char_def is_space_char_def Let_def)

lemma code_simps: "code (CHR ''-'') = 45" "code (CHR ''+'') = 43" "code (CHR ''_'') = 95"
  by (simp_all add: code_def)

lemma decimal_not_sign:
  "is_decimal_char c \<Longrightarrow> c \<noteq> CHR ''-'' \<and> c \<noteq> CHR ''+'' \<and> c \<noteq> CHR ''_''"
  using code_simps by (auto simp: is_decimal_char_def)

lemma strip_decimal:
  assumes "list_all is_decimal_char s"
  shows "strip s = s"
proof (cases s rule: rev_cases)
  case Nil
  then show ?thesis by (simp add: strip_def)
next
  case (snoc ys y)
  with assms have y: "\<not> is_space_char y" by (simp add: decimal_not_space)
  show ?thesis
  proof (cases s)
    case Nil
    then show ?thesis by (simp add: strip_def)
  next
    case (Cons x xs)
    with assms have "\<not> is_space_char x" by (simp add: decimal_not_space)
    then have "dropWhile is_space_char s = s" by (simp add: Cons)
    then show ?thesis using y by (simp add: strip_def snoc)
  qed
qed

lemma digits_ok_decimal: "list_all is_decimal_char s \<Longrightarrow> digits_ok True s"
  by (induction s) auto

lemma digits_ok_decimal_ne:
  "s \<noteq> [] \<Longrightarrow> list_all is_decimal_char s \<Longrightarrow> digits_ok b s"
  by (cases s) (auto simp: digits_ok_decimal)

lemma filter_decimal:
  "list_all is_decimal_char s \<Longrightarrow> filter (\<lambda>c. c \<noteq> CHR ''_'') s = s"
  by (induction s) (auto simp: decimal_not_sign)

lemma py_int_decimal:
  assumes "s \<noteq> []" and "list_all is_decimal_char s"
  shows "py_int s = Inr (dec_value s)"
proof -
  from assms obtain x xs where s: "s = x # xs" by (cases s) auto
  with assms have "is_decimal_char x" by simp
  then have x: "hd s \<noteq> CHR ''-''" "hd s \<noteq> CHR ''+''" by (simp_all add: decimal_not_sign s)
  have st: "strip s = s" using assms by (simp add: strip_decimal)
  have ok: "digits_ok False s" using assms by (rule digits_ok_decimal_ne)
  have fl: "filter (\<lambda>c. c \<noteq> CHR ''_'') s = s" using assms(2) by (rule filter_decimal)
  show ?thesis
    unfolding py_int_def Let_def st using x ok fl by simp
qed

lemma digits_ok_only_decimal:
  "digits_ok b s \<Longrightarrow> list_all (\<lambda>c. is_decimal_char c \<or> c = CHR ''_'') s"
  by (induction b s rule: digits_ok.induct) (auto split: if_splits)

lemma foldl_dec_nonneg:
  "0 \<le> a \<Longrightarrow> list_all is_decimal_char s \<Longrightarrow>
   0 \<le> foldl (\<lambda>acc c. 10 * acc + (int (code c) - 48)) a s"
  by (induction s arbitrary: a) (auto simp: is_decimal_char_def)

lemma dec_value_nonneg: "list_all is_decimal_char s \<Longrightarrow> 0 \<le> dec_value s"
  by (simp add: dec_value_def foldl_dec_nonneg)


lemma numbers_uncounted:
  assumes "startswith f ''capture_''" and "\<not> isdigit (name_component f)"
  shows "numbers (f # fs) = numbers fs"
  using assms by (simp add: component_capture)

lemma numbers_counted:
  assumes "startswith f ''capture_''" and "isdigit (name_component f)"
  shows "numbers (f # fs) =
     (case py_int (name_component f) of
        Inl e \<Rightarrow> Inl e
      | Inr n \<Rightarrow> (case numbers fs of Inl e \<Rightarrow> Inl e | Inr ns \<Rightarrow> Inr (n # ns)))"
  using assms by (simp add: component_capture)

lemma numbers_skip:
  assumes "list_all (\<lambda>f. startswith f ''capture_'') xs"
    and "startswith f ''capture_''" and "\<not> isdigit (name_component f)"
  shows "numbers (xs @ f # ys) = numbers (xs @ ys)"
  using assms(1)
proof (induction xs)
  case Nil
  show ?case using assms(2,3) by (simp add: numbers_uncounted del: numbers.simps)
next
  case (Cons x xs)
  then have x: "startswith x ''capture_''" and IH: "numbers (xs @ f # ys) = numbers (xs @ ys)"
    by simp_all
  show ?case
  proof (cases "isdigit (name_component x)")
    case True
    show ?thesis
      using numbers_counted [OF x True, of "xs @ f # ys"] numbers_counted [OF x True, of "xs @ ys"]
      by (simp only: append_Cons IH)
  next
    case False
    show ?thesis
      using numbers_uncounted [OF x False, of "xs @ f # ys"]
        numbers_uncounted [OF x False, of "xs @ ys"]
      by (simp only: append_Cons IH)
  qed
qed

lemma gncn_ignores:
  assumes "\<not> counted f"
  shows "get_next_capture_number (xs @ f # ys) = get_next_capture_number (xs @ ys)"
proof (cases "startswith f ''capture_''")
  case False
  then show ?thesis by (simp add: get_next_capture_number_def)
next
  case True
  with assms have nd: "\<not> isdigit (name_component f)" by (simp add: counted_def)
  have "list_all (\<lambda>f. startswith f ''capture_'') (filter (\<lambda>f. startswith f ''capture_'') xs)"
    by (simp add: list_all_iff)
  from numbers_skip [OF this True nd]
  show ?thesis using True by (simp add: get_next_capture_number_def)
qed

lemma numbers_decimal:
  assumes "\<forall>f\<in>set fs. counted f \<longrightarrow> list_all is_decimal_char (name_component f)"
  shows "numbers (filter (\<lambda>f. startswith f ''capture_'') fs) =
         Inr (map (\<lambda>f. dec_value (name_component f)) (filter counted fs))"
  using assms
proof (induction fs)
  case Nil
  show ?case by simp
next
  case (Cons f fs)
  then have IH: "numbers (filter (\<lambda>f. startswith f ''capture_'') fs) =
         Inr (map (\<lambda>f. dec_value (name_component f)) (filter counted fs))" by simp
  show ?case
  proof (cases "startswith f ''capture_''")
    case False
    then have "\<not> counted f" by (simp add: counted_def)
    with False show ?thesis using IH by simp
  next
    case sw: True
    show ?thesis
    proof (cases "isdigit (name_component f)")
      case False
      then have "\<not> counted f" by (simp add: counted_def)
      then show ?thesis
        using sw IH numbers_uncounted [OF sw False] by (simp del: numbers.simps)
    next
      case True
      then have c: "counted f" using sw by (simp add: counted_def)
      with Cons.prems have "list_all is_decimal_char (name_component f)" by simp
      moreover from True have "name_component f \<noteq> []" by (simp add: isdigit_def)
      ultimately have "py_int (name_component f) = Inr (dec_value (name_component f))"
        by (simp add: py_int_decimal)
      then show ?thesis
        using sw c IH numbers_counted [OF sw True] by (simp del: numbers.simps)
    qed
  qed
qed

lemma foldl_max_Max: "foldl max (n::int) ns = Max (set (n # ns))"
proof -
  have "foldl max n ns = fold max ns n"
    by (induction ns arbitrary: n) (simp_all add: max.commute)
  then show ?thesis by (simp only: Max.set_eq_fold)
qed

lemma max_default_Max:
  assumes "\<forall>n\<in>set ns. 0 \<le> n"
  shows "max_default ns 0 = Max (insert 0 (set ns))"
proof (cases ns)
  case Nil
  then show ?thesis by (simp add: max_default_def)
next
  case (Cons n rest)
  have "Max (insert 0 (set ns)) = max 0 (Max (set ns))"
    using Cons by (simp add: Max_insert del: set_simps)
  also have "\<dots> = Max (set ns)"
    using assms Cons by (intro max_absorb2) (simp add: Max_ge_iff)
  finally show ?thesis using Cons by (simp add: max_default_def foldl_max_Max)
qed

lemma gncn_decimal:
  assumes "\<forall>f\<in>set fs. counted f \<longrightarrow> list_all is_decimal_char (name_component f)"
  shows "get_next_capture_number fs =
         Inr (Max (insert 0 ((\<lambda>f. dec_value (name_component f)) ` {f \<in> set fs. counted f})) + 1)"
proof -
  let ?ns = "map (\<lambda>f. dec_value (name_component f)) (filter counted fs)"
  have "\<forall>n\<in>set ?ns. 0 \<le> n" using assms by (auto simp: dec_value_nonneg)
  then have "max_default ?ns 0 = Max (insert 0 (set ?ns))" by (rule max_default_Max)
  moreover have "set ?ns = (\<lambda>f. dec_value (name_component f)) ` {f \<in> set fs. counted f}"
    by auto
  ultimately show ?thesis
    using numbers_decimal [OF assms] by (simp add: get_next_capture_number_def)
qed

section \<open>The next capture number\<close>

text \<open>
  Claim C10: for every list of directory entries \<open>get_next_capture_number\<close> returns
  without raising, a positive number above every counted component. The code raises
  on a name whose component is a superscript digit: the character U+00B2 passes
  \<open>isdigit\<close>, the guard of the comprehension, and \<open>int\<close> then rejects it with
  ValueError. Evaluated on the directory that holds only the name \<open>capture_\<close>, U+00B2,
  \<open>.jpg\<close>.
\<close>

theorem next_number_superscript_digit_raises:
  "isdigit [CHR 0xB2] \<and>
   py_int [CHR 0xB2] = Inl (ValueError_literal [CHR 0xB2]) \<and>
   get_next_capture_number [''capture_'' @ [CHR 0xB2] @ ''.jpg''] =
     Inl (ValueError_literal [CHR 0xB2])"
  by code_simp

text \<open>
  Against claim C4 as stated: the name \<open>capture_3_x.jpg\<close> has \<open>3_x\<close> between its first
  underscore and the following dot, which is not all digits, yet it is not ignored:
  the code splits at the second underscore too and counts it as 3.
\<close>

theorem next_number_second_underscore_counted:
  "underscore_to_dot ''capture_3_x.jpg'' = ''3_x'' \<and>
   \<not> isdigit ''3_x'' \<and>
   get_next_capture_number [''capture_3_x.jpg''] = Inr 4 \<and>
   get_next_capture_number [] = Inr 1"
  by code_simp

text \<open>
  Claim C4, amended: on an empty directory \<open>get_next_capture_number\<close> returns 1; on a
  directory with exactly \<open>capture_3.jpg\<close> and \<open>capture_7.jpg\<close>, in either order, it
  returns 8; and a name that does not start with \<open>capture_\<close>, or whose part between
  the first underscore and the next underscore or dot (or the end of the name) is empty
  or fails \<open>isdigit\<close>, is ignored without raising: the result with the name in the
  listing, at any position, is the result without it.
\<close>

theorem next_number_examples_and_ignored:
  "get_next_capture_number [] = Inr 1 \<and>
   get_next_capture_number [''capture_3.jpg'', ''capture_7.jpg''] = Inr 8 \<and>
   get_next_capture_number [''capture_7.jpg'', ''capture_3.jpg''] = Inr 8 \<and>
   (\<not> counted f \<longrightarrow>
      get_next_capture_number (xs @ f # ys) = get_next_capture_number (xs @ ys))"
proof -
  have "get_next_capture_number [] = Inr 1" by code_simp
  moreover have "get_next_capture_number [''capture_3.jpg'', ''capture_7.jpg''] = Inr 8"
    by code_simp
  moreover have "get_next_capture_number [''capture_7.jpg'', ''capture_3.jpg''] = Inr 8"
    by code_simp
  ultimately show ?thesis using gncn_ignores [of f xs ys] by blast
qed

theorem next_number_examples_and_ignored_witness:
  "\<not> counted ''capture_abc.jpg'' \<and>
   get_next_capture_number ([''capture_3.jpg''] @ ''capture_abc.jpg'' # [''capture_7.jpg'']) =
     get_next_capture_number ([''capture_3.jpg''] @ [''capture_7.jpg''])"
proof -
  have h: "\<not> counted ''capture_abc.jpg''" by code_simp
  from next_number_examples_and_ignored [of "''capture_abc.jpg''" "[''capture_3.jpg'']" "[''capture_7.jpg'']"]
  have "\<not> counted ''capture_abc.jpg'' \<longrightarrow>
     get_next_capture_number ([''capture_3.jpg''] @ ''capture_abc.jpg'' # [''capture_7.jpg'']) =
     get_next_capture_number ([''capture_3.jpg''] @ [''capture_7.jpg''])"
    by (elim conjE)
  with h show ?thesis by blast
qed

text \<open>
  Against claim C5 as stated: \<open>capture_9.png\<close> has a numeric component and another
  extension, and it contributes: alone in the directory it makes the next number 10.
\<close>

theorem next_number_other_extension_counted:
  "get_next_capture_number [''capture_9.png''] = Inr 10 \<and>
   get_next_capture_number [] = Inr 1"
  by code_simp

text \<open>
  Claim C5, amended: the next capture number is computed from exactly the counted
  names, those that start with \<open>capture_\<close> and whose part up to the next underscore or
  dot passes \<open>isdigit\<close>, whatever extension follows; when those parts are decimal
  digits, the result is the maximum of their values (0 when there is none) plus one.
\<close>

theorem next_number_is_max_plus_one:
  assumes "\<forall>f\<in>set fs. counted f \<longrightarrow> list_all is_decimal_char (name_component f)"
  shows "get_next_capture_number fs =
         Inr (Max (insert 0 ((\<lambda>f. dec_value (name_component f)) ` {f \<in> set fs. counted f})) + 1)"
  using assms by (rule gncn_decimal)

theorem next_number_is_max_plus_one_witness:
  "list_all is_decimal_char (name_component ''capture_9.png'') \<and>
   list_all is_decimal_char (name_component ''capture_3.jpg'') \<and>
   \<not> counted ''notes.txt'' \<and>
   get_next_capture_number [''capture_9.png'', ''capture_3.jpg'', ''notes.txt''] =
     Inr (Max (insert 0 ((\<lambda>f. dec_value (name_component f)) `
       {f \<in> set [''capture_9.png'', ''capture_3.jpg'', ''notes.txt'']. counted f})) + 1) \<and>
   get_next_capture_number [''capture_9.png'', ''capture_3.jpg'', ''notes.txt''] = Inr 10"
proof -
  have a: "list_all is_decimal_char (name_component ''capture_9.png'')" by code_simp
  have b: "list_all is_decimal_char (name_component ''capture_3.jpg'')" by code_simp
  have c: "\<not> counted ''notes.txt''" by code_simp
  have h: "\<forall>f\<in>set [''capture_9.png'', ''capture_3.jpg'', ''notes.txt''].
      counted f \<longrightarrow> list_all is_decimal_char (name_component f)"
    using a b c by simp
  have v: "get_next_capture_number [''capture_9.png'', ''capture_3.jpg'', ''notes.txt''] = Inr 10"
    by code_simp
  from a b c next_number_is_max_plus_one [OF h] v show ?thesis by blast
qed

section \<open>Sensor profile selection\<close>

lemma startswith_iff: "startswith s p \<longleftrightarrow> (\<exists>post. s = p @ post)"
proof
  assume "startswith s p"
  then have "s = p @ drop (length p) s"
    unfolding startswith_def by (metis append_take_drop_id)
  then show "\<exists>post. s = p @ post" ..
next
  assume "\<exists>post. s = p @ post"
  then show "startswith s p" by (auto simp: startswith_def)
qed

lemma str_in_iff: "str_in sub s \<longleftrightarrow> (\<exists>pre post. s = pre @ sub @ post)"
proof (induction s)
  case Nil
  show ?case by auto
next
  case (Cons c cs)
  show ?case
  proof
    assume "str_in sub (c # cs)"
    then consider "startswith (c # cs) sub" | "str_in sub cs" by auto
    then show "\<exists>pre post. c # cs = pre @ sub @ post"
    proof cases
      case 1
      then obtain post where "c # cs = sub @ post" by (auto simp: startswith_iff)
      then have "c # cs = [] @ sub @ post" by simp
      then show ?thesis by blast
    next
      case 2
      with Cons.IH obtain pre post where "cs = pre @ sub @ post" by auto
      then have "c # cs = (c # pre) @ sub @ post" by simp
      then show ?thesis by blast
    qed
  next
    assume "\<exists>pre post. c # cs = pre @ sub @ post"
    then obtain pre post where eq: "c # cs = pre @ sub @ post" by auto
    show "str_in sub (c # cs)"
    proof (cases pre)
      case Nil
      with eq have "startswith (c # cs) sub" by (auto simp: startswith_iff)
      then show ?thesis by simp
    next
      case (Cons p ps)
      with eq have "cs = ps @ sub @ post" by simp
      with Cons.IH have "str_in sub cs" by blast
      then show ?thesis by simp
    qed
  qed
qed

lemma code_inj: "code a = code b \<longleftrightarrow> a = b"
  by (simp add: code_def)

lemma lower_char_upper:
  assumes "(65 \<le> code c \<and> code c \<le> 90) \<or> (192 \<le> code c \<and> code c \<le> 214) \<or> (216 \<le> code c \<and> code c \<le> 222)"
  shows "lower_char c = d \<longleftrightarrow> code d = code c + 32"
proof -
  have "code (char_of (code c + 32)) = (code c + 32) mod 256" by (simp add: code_def)
  also have "\<dots> = code c + 32" using assms by auto
  finally have *: "code (char_of (code c + 32)) = code c + 32" .
  have "lower_char c = char_of (code c + 32)"
    using assms by (simp add: lower_char_def Let_def)
  then have "lower_char c = d \<longleftrightarrow> code (char_of (code c + 32)) = code d"
    by (simp only: code_inj)
  then show ?thesis using * by auto
qed

lemma lower_char_other:
  assumes "\<not> ((65 \<le> code c \<and> code c \<le> 90) \<or> (192 \<le> code c \<and> code c \<le> 214) \<or> (216 \<le> code c \<and> code c \<le> 222))"
  shows "lower_char c = c"
  using assms by (auto simp: lower_char_def Let_def)

lemma code_vals:
  "code (CHR ''i'') = 105" "code (CHR ''I'') = 73"
  "code (CHR ''m'') = 109" "code (CHR ''M'') = 77"
  "code (CHR ''x'') = 120" "code (CHR ''X'') = 88"
  "code (CHR ''7'') = 55" "code (CHR ''0'') = 48" "code (CHR ''8'') = 56"
  by (simp_all add: code_def)

lemma lower_char_letter:
  assumes lo: "code l = code u + 32" and up: "65 \<le> code u" "code u \<le> 90"
  shows "lower_char c = l \<longleftrightarrow> c = l \<or> c = u"
proof (cases "(65 \<le> code c \<and> code c \<le> 90) \<or> (192 \<le> code c \<and> code c \<le> 214) \<or> (216 \<le> code c \<and> code c \<le> 222)")
  case True
  then have "lower_char c = l \<longleftrightarrow> code l = code c + 32" by (rule lower_char_upper)
  also have "\<dots> \<longleftrightarrow> code c = code u" using lo by auto
  also have "\<dots> \<longleftrightarrow> c = u" by (rule code_inj)
  finally have "lower_char c = l \<longleftrightarrow> c = u" .
  moreover have "c \<noteq> l" using True lo up by auto
  ultimately show ?thesis by simp
next
  case False
  then have "lower_char c = c" by (rule lower_char_other)
  moreover have "c \<noteq> u" using False up by auto
  ultimately show ?thesis by auto
qed

lemma lower_char_plain:
  assumes "code d < 65"
  shows "lower_char c = d \<longleftrightarrow> c = d"
proof (cases "(65 \<le> code c \<and> code c \<le> 90) \<or> (192 \<le> code c \<and> code c \<le> 214) \<or> (216 \<le> code c \<and> code c \<le> 222)")
  case True
  then have "lower_char c = d \<longleftrightarrow> code d = code c + 32" by (rule lower_char_upper)
  moreover have "code d \<noteq> code c + 32" using True assms by auto
  moreover have "c \<noteq> d" using True assms by auto
  ultimately show ?thesis by simp
next
  case False
  then have "lower_char c = c" by (rule lower_char_other)
  then show ?thesis by simp
qed

lemma lower_char_i: "lower_char c = CHR ''i'' \<longleftrightarrow> c = CHR ''i'' \<or> c = CHR ''I''"
  by (rule lower_char_letter) (simp_all add: code_vals)

lemma lower_char_m: "lower_char c = CHR ''m'' \<longleftrightarrow> c = CHR ''m'' \<or> c = CHR ''M''"
  by (rule lower_char_letter) (simp_all add: code_vals)

lemma lower_char_x: "lower_char c = CHR ''x'' \<longleftrightarrow> c = CHR ''x'' \<or> c = CHR ''X''"
  by (rule lower_char_letter) (simp_all add: code_vals)

lemma lower_char_708:
  "lower_char c = CHR ''7'' \<longleftrightarrow> c = CHR ''7''"
  "lower_char c = CHR ''0'' \<longleftrightarrow> c = CHR ''0''"
  "lower_char c = CHR ''8'' \<longleftrightarrow> c = CHR ''8''"
  by (rule lower_char_plain, simp add: code_vals)+



lemma map_eq_six:
  "map f xs = [a1, a2, a3, a4, a5, a6] \<longleftrightarrow>
     (\<exists>x1 x2 x3 x4 x5 x6. xs = [x1, x2, x3, x4, x5, x6] \<and> f x1 = a1 \<and> f x2 = a2 \<and>
        f x3 = a3 \<and> f x4 = a4 \<and> f x5 = a5 \<and> f x6 = a6)"
  by (auto simp: map_eq_Cons_conv)

lemma marker_chars: "''imx708'' = [CHR ''i'', CHR ''m'', CHR ''x'', CHR ''7'', CHR ''0'', CHR ''8'']"
  by simp

lemma lower_marker:
  "map lower_char mid = ''imx708'' \<longleftrightarrow>
     (\<exists>c1 c2 c3. mid = [c1, c2, c3] @ ''708'' \<and>
        (c1 = CHR ''i'' \<or> c1 = CHR ''I'') \<and> (c2 = CHR ''m'' \<or> c2 = CHR ''M'') \<and>
        (c3 = CHR ''x'' \<or> c3 = CHR ''X''))"
  unfolding map_eq_six lower_char_i lower_char_m lower_char_x lower_char_708
  by auto

lemma lower_marker_intro:
  assumes "c1 = CHR ''i'' \<or> c1 = CHR ''I''" "c2 = CHR ''m'' \<or> c2 = CHR ''M''"
    "c3 = CHR ''x'' \<or> c3 = CHR ''X''"
  shows "map lower_char (c1 # c2 # c3 # ''708'') = ''imx708''"
proof -
  have "lower_char c1 = CHR ''i''" using assms(1) by (simp only: lower_char_i)
  moreover have "lower_char c2 = CHR ''m''" using assms(2) by (simp only: lower_char_m)
  moreover have "lower_char c3 = CHR ''x''" using assms(3) by (simp only: lower_char_x)
  moreover have "lower_char (CHR ''7'') = CHR ''7''" by (simp only: lower_char_708)
  moreover have "lower_char (CHR ''0'') = CHR ''0''" by (simp only: lower_char_708)
  moreover have "lower_char (CHR ''8'') = CHR ''8''" by (simp only: lower_char_708)
  ultimately show ?thesis by (simp only: list.map)
qed

lemma lower_marker_elim:
  assumes "map lower_char mid = ''imx708''"
  shows "\<exists>c1 c2 c3. mid = c1 # c2 # c3 # ''708'' \<and>
        (c1 = CHR ''i'' \<or> c1 = CHR ''I'') \<and> (c2 = CHR ''m'' \<or> c2 = CHR ''M'') \<and>
        (c3 = CHR ''x'' \<or> c3 = CHR ''X'')"
proof -
  from assms obtain x1 x2 x3 x4 x5 x6 where m: "mid = [x1, x2, x3, x4, x5, x6]"
    and l: "lower_char x1 = CHR ''i''" "lower_char x2 = CHR ''m''" "lower_char x3 = CHR ''x''"
      "lower_char x4 = CHR ''7''" "lower_char x5 = CHR ''0''" "lower_char x6 = CHR ''8''"
    unfolding map_eq_six by blast
  from l(4,5,6) have "x4 = CHR ''7''" "x5 = CHR ''0''" "x6 = CHR ''8''"
    by (simp_all only: lower_char_708)
  with m have "mid = x1 # x2 # x3 # ''708''" by simp
  moreover from l(1) have "x1 = CHR ''i'' \<or> x1 = CHR ''I''" by (simp only: lower_char_i)
  moreover from l(2) have "x2 = CHR ''m'' \<or> x2 = CHR ''M''" by (simp only: lower_char_m)
  moreover from l(3) have "x3 = CHR ''x'' \<or> x3 = CHR ''X''" by (simp only: lower_char_x)
  ultimately show ?thesis by blast
qed


lemma map_eq_append3:
  assumes "map f xs = a @ m @ b"
  shows "\<exists>pre mid post. xs = pre @ mid @ post \<and> map f mid = m"
proof -
  from assms have "\<exists>us vs. xs = us @ vs \<and> a = map f us \<and> m @ b = map f vs"
    by (rule map_eq_append_conv [THEN iffD1])
  then obtain us vs where 1: "xs = us @ vs" and 2: "m @ b = map f vs"
    by blast
  from 2 have "map f vs = m @ b" by (rule sym)
  then have "\<exists>ms ps. vs = ms @ ps \<and> m = map f ms \<and> b = map f ps"
    by (rule map_eq_append_conv [THEN iffD1])
  then obtain mid post where 3: "vs = mid @ post" and 4: "m = map f mid"
    by blast
  from 1 3 4 show ?thesis by blast
qed

lemma str_in_lower_iff:
  "str_in m (lower ident) \<longleftrightarrow> (\<exists>pre mid post. ident = pre @ mid @ post \<and> map lower_char mid = m)"
proof
  assume "str_in m (lower ident)"
  then obtain a b where "map lower_char ident = a @ m @ b"
    unfolding str_in_iff lower_def by blast
  then show "\<exists>pre mid post. ident = pre @ mid @ post \<and> map lower_char mid = m"
    by (rule map_eq_append3)
next
  assume "\<exists>pre mid post. ident = pre @ mid @ post \<and> map lower_char mid = m"
  then obtain pre mid post where "ident = pre @ mid @ post" and "map lower_char mid = m"
    by blast
  then have "lower ident = lower pre @ m @ lower post"
    by (simp add: lower_def)
  then show "str_in m (lower ident)"
    unfolding str_in_iff by blast
qed

lemma is_v3_iff:
  "str_in ''imx708'' (lower ident) \<longleftrightarrow>
     (\<exists>pre c1 c2 c3 post. ident = pre @ c1 # c2 # c3 # ''708'' @ post \<and>
        (c1 = CHR ''i'' \<or> c1 = CHR ''I'') \<and> (c2 = CHR ''m'' \<or> c2 = CHR ''M'') \<and>
        (c3 = CHR ''x'' \<or> c3 = CHR ''X''))"
  (is "?L \<longleftrightarrow> ?R")
proof
  assume ?L
  then have "\<exists>pre mid post. ident = pre @ mid @ post \<and> map lower_char mid = ''imx708''"
    by (simp only: str_in_lower_iff)
  then obtain pre mid post where id: "ident = pre @ mid @ post"
    and mid: "map lower_char mid = ''imx708''"
    by (elim exE conjE)
  from lower_marker_elim [OF mid] obtain c1 c2 c3 where m: "mid = c1 # c2 # c3 # ''708''"
    and cs: "c1 = CHR ''i'' \<or> c1 = CHR ''I''" "c2 = CHR ''m'' \<or> c2 = CHR ''M''"
    "c3 = CHR ''x'' \<or> c3 = CHR ''X''"
    by (elim exE conjE)
  have "ident = pre @ c1 # c2 # c3 # ''708'' @ post"
    unfolding id m by (simp only: append_Cons append_Nil)
  with cs show ?R
    by (intro exI [of _ pre] exI [of _ c1] exI [of _ c2] exI [of _ c3] exI [of _ post] conjI)
next
  assume ?R
  then obtain pre c1 c2 c3 post where id: "ident = pre @ c1 # c2 # c3 # ''708'' @ post"
    and cs: "c1 = CHR ''i'' \<or> c1 = CHR ''I''" "c2 = CHR ''m'' \<or> c2 = CHR ''M''"
    "c3 = CHR ''x'' \<or> c3 = CHR ''X''"
    by (elim exE conjE)
  have id2: "ident = pre @ (c1 # c2 # c3 # ''708'') @ post"
    unfolding id by (simp only: append_Cons append_Nil)
  from id2 lower_marker_intro [OF cs]
  have "\<exists>pre mid post. ident = pre @ mid @ post \<and> map lower_char mid = ''imx708''"
    by (intro exI [of _ pre] exI [of _ "c1 # c2 # c3 # ''708''"] exI [of _ post] conjI)
  then show ?L by (simp only: str_in_lower_iff)
qed

lemma module_globals_v3:
  assumes "str_in ''imx708'' (lower ident)"
  shows "module_globals ident addr =
    \<lparr>g_camera_info = FunctionObj ''camera_info'' addr, g_is_v3 = True,
     g_video_config = \<lparr>kind = VideoConfiguration, main_size = Some (1920, 1080),
        controls = [AfMode AfModeContinuous, AfRange AfRangeNormal, AfMetering AfMeteringWindows,
                    AfWindows [(864, 486, 192, 108)], FrameDurationLimits (100000, 100000)]\<rparr>,
     g_still_config = \<lparr>kind = StillConfiguration, main_size = Some (4608, 2592),
        controls = [AfMode AfModeAuto]\<rparr>\<rparr>"
  using assms
  by (simp add: module_globals_def Let_def create_video_configuration_def
      create_still_configuration_def)

lemma module_globals_generic:
  assumes "\<not> str_in ''imx708'' (lower ident)"
  shows "module_globals ident addr =
    \<lparr>g_camera_info = FunctionObj ''camera_info'' addr, g_is_v3 = False,
     g_video_config = \<lparr>kind = VideoConfiguration, main_size = Some (640, 480), controls = []\<rparr>,
     g_still_config = \<lparr>kind = StillConfiguration, main_size = None, controls = []\<rparr>\<rparr>"
  using assms
  by (simp add: module_globals_def Let_def create_video_configuration_def
      create_still_configuration_def)

text \<open>
  Claim C1: the selected configurations are a function of the identification string
  alone. When the string contains the marker \<open>imx708\<close> in any mix of upper and lower
  case, the streaming configuration has size 1920 x 1080 and the still configuration
  4608 x 2592; otherwise the streaming configuration has size 640 x 480 and no
  controls, and the still configuration is built with no size and no controls. The
  address printed for the handler function does not enter the configurations.
\<close>

theorem sensor_profile_selection:
  "((\<exists>pre c1 c2 c3 post. ident = pre @ c1 # c2 # c3 # ''708'' @ post \<and>
        (c1 = CHR ''i'' \<or> c1 = CHR ''I'') \<and> (c2 = CHR ''m'' \<or> c2 = CHR ''M'') \<and>
        (c3 = CHR ''x'' \<or> c3 = CHR ''X'')) \<longrightarrow>
      main_size (g_video_config (module_globals ident addr)) = Some (1920, 1080) \<and>
      main_size (g_still_config (module_globals ident addr)) = Some (4608, 2592)) \<and>
   (\<not> (\<exists>pre c1 c2 c3 post. ident = pre @ c1 # c2 # c3 # ''708'' @ post \<and>
        (c1 = CHR ''i'' \<or> c1 = CHR ''I'') \<and> (c2 = CHR ''m'' \<or> c2 = CHR ''M'') \<and>
        (c3 = CHR ''x'' \<or> c3 = CHR ''X'')) \<longrightarrow>
      g_video_config (module_globals ident addr) =
        \<lparr>kind = VideoConfiguration, main_size = Some (640, 480), controls = []\<rparr> \<and>
      g_still_config (module_globals ident addr) =
        \<lparr>kind = StillConfiguration, main_size = None, controls = []\<rparr>) \<and>
   g_video_config (module_globals ident addr) = g_video_config (module_globals ident addr') \<and>
   g_still_config (module_globals ident addr) = g_still_config (module_globals ident addr')"
proof (cases "str_in ''imx708'' (lower ident)")
  case True
  have "\<exists>pre c1 c2 c3 post. ident = pre @ c1 # c2 # c3 # ''708'' @ post \<and>
        (c1 = CHR ''i'' \<or> c1 = CHR ''I'') \<and> (c2 = CHR ''m'' \<or> c2 = CHR ''M'') \<and>
        (c3 = CHR ''x'' \<or> c3 = CHR ''X'')"
    using True unfolding is_v3_iff .
  then show ?thesis
    using module_globals_v3 [OF True, of addr] module_globals_v3 [OF True, of addr']
    by simp
next
  case False
  have "\<not> (\<exists>pre c1 c2 c3 post. ident = pre @ c1 # c2 # c3 # ''708'' @ post \<and>
        (c1 = CHR ''i'' \<or> c1 = CHR ''I'') \<and> (c2 = CHR ''m'' \<or> c2 = CHR ''M'') \<and>
        (c3 = CHR ''x'' \<or> c3 = CHR ''X''))"
    using False unfolding is_v3_iff .
  then show ?thesis
    using module_globals_generic [OF False, of addr] module_globals_generic [OF False, of addr']
    by simp
qed

theorem sensor_profile_selection_witness:
  "main_size (g_video_config (module_globals ''[{Model: IMX708_wide, Num: 0}]'' ''7f3a'')) =
     Some (1920, 1080) \<and>
   main_size (g_still_config (module_globals ''[{Model: IMX708_wide, Num: 0}]'' ''7f3a'')) =
     Some (4608, 2592) \<and>
   g_video_config (module_globals ''[{Model: imx477, Num: 0}]'' ''7f3a'') =
     \<lparr>kind = VideoConfiguration, main_size = Some (640, 480), controls = []\<rparr> \<and>
   g_still_config (module_globals ''[{Model: imx477, Num: 0}]'' ''7f3a'') =
     \<lparr>kind = StillConfiguration, main_size = None, controls = []\<rparr>"
proof -
  have s1: "str_in ''imx708'' (lower ''[{Model: IMX708_wide, Num: 0}]'')" by code_simp
  have s2: "\<not> str_in ''imx708'' (lower ''[{Model: imx477, Num: 0}]'')" by code_simp
  have h1: "\<exists>pre c1 c2 c3 post.
        ''[{Model: IMX708_wide, Num: 0}]'' = pre @ c1 # c2 # c3 # ''708'' @ post \<and>
        (c1 = CHR ''i'' \<or> c1 = CHR ''I'') \<and> (c2 = CHR ''m'' \<or> c2 = CHR ''M'') \<and>
        (c3 = CHR ''x'' \<or> c3 = CHR ''X'')"
    using s1 unfolding is_v3_iff .
  have h2: "\<not> (\<exists>pre c1 c2 c3 post.
        ''[{Model: imx477, Num: 0}]'' = pre @ c1 # c2 # c3 # ''708'' @ post \<and>
        (c1 = CHR ''i'' \<or> c1 = CHR ''I'') \<and> (c2 = CHR ''m'' \<or> c2 = CHR ''M'') \<and>
        (c3 = CHR ''x'' \<or> c3 = CHR ''X''))"
    using s2 unfolding is_v3_iff .
  note a = sensor_profile_selection
    [of "''[{Model: IMX708_wide, Num: 0}]''" "''7f3a''" "''7f3a''", THEN conjunct1, THEN mp, OF h1]
  note b = sensor_profile_selection
    [of "''[{Model: imx477, Num: 0}]''" "''7f3a''" "''7f3a''", THEN conjunct2, THEN conjunct1,
     THEN mp, OF h2]
  from a b show ?thesis by (intro conjI) (elim conjE, assumption)+
qed

section \<open>The camera information route\<close>

text \<open>
  Claim C6: the \<open>info\<close> field of \<open>/camera_info\<close> is the string form of the device
  identification queried at startup. In the code the handler is itself named
  \<open>camera_info\<close>, so its \<open>def\<close> rebinds the module-level name; when a request is
  served, \<open>str(camera_info)\<close> is the string form of the handler function, whatever the
  identification was. The fields \<open>is_v3\<close> and \<open>type\<close> are as the claim says.
\<close>

theorem camera_info_route_info_is_function:
  "camera_info_route (module_globals ident addr) =
     Response 200
       [(''is_v3'', JBool (str_in ''imx708'' (lower ident))),
        (''info'', JStr (''<function camera_info at 0x'' @ addr @ ''>'')),
        (''type'', JStr (if str_in ''imx708'' (lower ident)
                         then ''Pi Camera V3'' else ''HQ or other camera''))]"
proof (cases "str_in ''imx708'' (lower ident)")
  case True
  then show ?thesis by (simp add: module_globals_v3 camera_info_route_def)
next
  case False
  then show ?thesis by (simp add: module_globals_generic camera_info_route_def)
qed

section \<open>The latest capture\<close>

lemma latest_capture_none:
  assumes "listdir_fault w = None" and "\<forall>f\<in>set (files w). \<not> startswith f ''capture_''"
  shows "latest_capture w =
    (Response 404 [(''success'', JBool False), (''error'', JStr ''No captures found'')], w)"
proof -
  have "filter (\<lambda>f. startswith f ''capture_'') (files w) = []"
    using assms(2) by (simp add: filter_empty_conv)
  then show ?thesis
    using assms(1)
    by (simp add: latest_capture_def latest_capture_try_def then_do_def os_listdir_def return_def)
qed

lemma latest_capture_listing:
  assumes "listdir_fault w = None"
    and "filter (\<lambda>f. startswith f ''capture_'') (files w) = fs" and "fs \<noteq> []"
  shows "latest_capture w =
    (case max_key capture_key fs of
       Inl e \<Rightarrow> (Response 500 [(''success'', JBool False), (''error'', JStrOf e)], w)
     | Inr latest \<Rightarrow> (Response 200 [(''success'', JBool True), (''filename'', JStr latest)], w))"
  using assms
  by (simp add: latest_capture_def latest_capture_try_def then_do_def os_listdir_def
      split: sum.splits)

lemma key_1: "capture_key ''capture_1.jpg'' = Inr 1" by code_simp
lemma key_2: "capture_key ''capture_2.jpg'' = Inr 2" by code_simp
lemma key_abc: "capture_key ''capture_abc.jpg'' = Inl (ValueError_literal ''abc'')" by code_simp
lemma sw_1: "startswith ''capture_1.jpg'' ''capture_''" by code_simp
lemma sw_2: "startswith ''capture_2.jpg'' ''capture_''" by code_simp
lemma sw_abc: "startswith ''capture_abc.jpg'' ''capture_''" by code_simp

lemma max_key_abc: "max_key capture_key [''capture_abc.jpg''] = Inl (ValueError_literal ''abc'')"
  by (simp only: max_key_def key_abc list.case sum.case)

lemma max_key_loop_spec:
  assumes "\<forall>x\<in>set xs. \<exists>k. key x = Inr k" and "key best = Inr bk"
  shows "\<exists>r rk. max_key_loop key xs best bk = Inr r \<and> r \<in> set (best # xs) \<and>
           key r = Inr rk \<and> bk \<le> rk \<and> (\<forall>x\<in>set xs. \<forall>j. key x = Inr j \<longrightarrow> j \<le> rk)"
  using assms
proof (induction xs arbitrary: best bk)
  case Nil
  then show ?case by simp
next
  case (Cons x xs)
  from Cons.prems(1) obtain k where k: "key x = Inr k" by auto
  from Cons.prems(1) have rest: "\<forall>y\<in>set xs. \<exists>k. key y = Inr k" by simp
  show ?case
  proof (cases "k > bk")
    case True
    from Cons.IH [OF rest k] obtain r rk where
      r: "max_key_loop key xs x k = Inr r" "r \<in> set (x # xs)" "key r = Inr rk" "k \<le> rk"
        "\<forall>y\<in>set xs. \<forall>j. key y = Inr j \<longrightarrow> j \<le> rk"
      by blast
    have "max_key_loop key (x # xs) best bk = Inr r" using k True r(1) by simp
    moreover have "r \<in> set (best # x # xs)" using r(2) by simp
    moreover have "bk \<le> rk" using True r(4) by simp
    moreover have "\<forall>y\<in>set (x # xs). \<forall>j. key y = Inr j \<longrightarrow> j \<le> rk"
      using r(4,5) k by simp
    ultimately show ?thesis using r(3) by blast
  next
    case False
    from Cons.IH [OF rest Cons.prems(2)] obtain r rk where
      r: "max_key_loop key xs best bk = Inr r" "r \<in> set (best # xs)" "key r = Inr rk" "bk \<le> rk"
        "\<forall>y\<in>set xs. \<forall>j. key y = Inr j \<longrightarrow> j \<le> rk"
      by blast
    have "max_key_loop key (x # xs) best bk = Inr r" using k False r(1) by simp
    moreover have "r \<in> set (best # x # xs)" using r(2) by auto
    moreover have "\<forall>y\<in>set (x # xs). \<forall>j. key y = Inr j \<longrightarrow> j \<le> rk"
      using r(4,5) k False by simp
    ultimately show ?thesis using r(3,4) by blast
  qed
qed

lemma max_key_spec:
  assumes "xs \<noteq> []" and "\<forall>x\<in>set xs. \<exists>k. key x = Inr k"
  shows "\<exists>r rk. max_key key xs = Inr r \<and> r \<in> set xs \<and> key r = Inr rk \<and>
           (\<forall>x\<in>set xs. \<forall>j. key x = Inr j \<longrightarrow> j \<le> rk)"
proof -
  from assms(1) obtain x rest where xs: "xs = x # rest" by (cases xs) auto
  from assms(2) xs obtain k where k: "key x = Inr k" by auto
  from assms(2) xs have rest: "\<forall>y\<in>set rest. \<exists>k. key y = Inr k" by simp
  from max_key_loop_spec [OF rest k] obtain r rk where
    r: "max_key_loop key rest x k = Inr r" "r \<in> set (x # rest)" "key r = Inr rk" "k \<le> rk"
      "\<forall>y\<in>set rest. \<forall>j. key y = Inr j \<longrightarrow> j \<le> rk"
    by blast
  have "max_key key xs = Inr r" using xs k r(1) by (simp add: max_key_def)
  moreover have "r \<in> set xs" using r(2) xs by simp
  moreover have "\<forall>y\<in>set xs. \<forall>j. key y = Inr j \<longrightarrow> j \<le> rk"
    using r(4,5) k xs by simp
  ultimately show ?thesis using r(3) by blast
qed

lemma capture_key_decimal:
  assumes "startswith f ''capture_''" and "name_component f \<noteq> []"
    and "list_all is_decimal_char (name_component f)"
  shows "capture_key f = Inr (dec_value (name_component f))"
  using assms by (simp add: capture_key_def component_capture py_int_decimal)


lemma latest_capture_highest:
  assumes l: "listdir_fault w = None"
    and ne: "\<exists>f\<in>set (files w). startswith f ''capture_''"
    and ks: "\<forall>f\<in>set (files w). startswith f ''capture_'' \<longrightarrow> (\<exists>k. capture_key f = Inr k)"
  shows "\<exists>latest k.
      latest_capture w =
        (Response 200 [(''success'', JBool True), (''filename'', JStr latest)], w) \<and>
      latest \<in> set (files w) \<and> startswith latest ''capture_'' \<and> capture_key latest = Inr k \<and>
      (\<forall>f\<in>set (files w). startswith f ''capture_'' \<longrightarrow>
         (\<forall>j. capture_key f = Inr j \<longrightarrow> j \<le> k))"
proof -
  let ?fs = "filter (\<lambda>f. startswith f ''capture_'') (files w)"
  have fs: "?fs \<noteq> []" using ne by (simp add: filter_empty_conv)
  have "\<forall>x\<in>set ?fs. \<exists>k. capture_key x = Inr k" using ks by simp
  from max_key_spec [OF fs this] obtain r rk where
    r: "max_key capture_key ?fs = Inr r" "r \<in> set ?fs" "capture_key r = Inr rk"
      "\<forall>x\<in>set ?fs. \<forall>j. capture_key x = Inr j \<longrightarrow> j \<le> rk"
    by blast
  have "latest_capture w =
        (Response 200 [(''success'', JBool True), (''filename'', JStr r)], w)"
    using latest_capture_listing [OF l refl fs] r(1) by simp
  moreover have "r \<in> set (files w)" "startswith r ''capture_''" using r(2) by simp_all
  moreover have "\<forall>f\<in>set (files w). startswith f ''capture_'' \<longrightarrow>
         (\<forall>j. capture_key f = Inr j \<longrightarrow> j \<le> rk)"
    using r(4) by simp
  ultimately show ?thesis using r(3) by blast
qed

lemma latest_of_two:
  assumes l: "listdir_fault w = None"
    and s: "{f \<in> set (files w). startswith f ''capture_''} = {a, b}"
    and ka: "capture_key a = Inr ka" and kb: "capture_key b = Inr kb" and lt: "ka < kb"
  shows "latest_capture w =
        (Response 200 [(''success'', JBool True), (''filename'', JStr b)], w)"
proof -
  have ina: "a \<in> set (files w) \<and> startswith a ''capture_''" using s by blast
  have inb: "b \<in> set (files w) \<and> startswith b ''capture_''" using s by blast
  have only: "\<And>f. f \<in> set (files w) \<Longrightarrow> startswith f ''capture_'' \<Longrightarrow> f = a \<or> f = b"
    using s by blast
  have ne: "\<exists>f\<in>set (files w). startswith f ''capture_''" using ina by blast
  have ks: "\<forall>f\<in>set (files w). startswith f ''capture_'' \<longrightarrow> (\<exists>k. capture_key f = Inr k)"
    using only ka kb by blast
  from latest_capture_highest [OF l ne ks] obtain latest k where
    r: "latest_capture w =
        (Response 200 [(''success'', JBool True), (''filename'', JStr latest)], w)"
      "latest \<in> set (files w)" "startswith latest ''capture_''" "capture_key latest = Inr k"
      "\<forall>f\<in>set (files w). startswith f ''capture_'' \<longrightarrow>
         (\<forall>j. capture_key f = Inr j \<longrightarrow> j \<le> k)"
    by blast
  from r(5) inb kb have "kb \<le> k" by blast
  moreover from only [OF r(2) r(3)] have "latest = a \<or> latest = b" .
  ultimately have "latest = b" using r(4) ka lt by auto
  with r(1) show ?thesis by simp
qed

lemma key_9: "capture_key ''capture_9.jpg'' = Inr 9" by code_simp
lemma key_10: "capture_key ''capture_10.jpg'' = Inr 10" by code_simp
lemma sw_9: "startswith ''capture_9.jpg'' ''capture_''" by code_simp
lemma sw_10: "startswith ''capture_10.jpg'' ''capture_''" by code_simp
lemma sw_notes: "\<not> startswith ''notes.txt'' ''capture_''" by code_simp

lemma pick_highest:
  assumes "latest \<in> set [a, n, b]" and "P latest" and "\<not> P n"
    and "key latest = Inr k" and "key a = Inr ka" and "key b = Inr kb"
    and "kb \<le> k" and "ka < (kb::int)"
  shows "latest = b"
  using assms by auto

lemma prefixed_of_three:
  assumes "P a" and "P b" and "\<not> P n"
  shows "{f \<in> set [b, n, a]. P f} = {a, b}"
  using assms by auto

lemma ball_three: "(\<forall>f\<in>set [a, n, b]. Q f) \<longleftrightarrow> Q a \<and> Q n \<and> Q b"
  by simp

lemma bex_three: "(\<exists>f\<in>set [a, n, b]. Q f) \<longleftrightarrow> Q a \<or> Q n \<or> Q b"
  by simp

text \<open>
  Claim C7: when the capture directory holds no name starting with \<open>capture_\<close>,
  \<open>/latest_capture\<close> answers 404 with \<open>success\<close> false and the error
  \<open>No captures found\<close>. When it holds such names and \<open>int\<close> accepts the component of
  each, it answers \<open>success\<close> true with one of those names, and no name with the prefix
  has a greater key; when the components are decimal digits, the key is their value, so
  the answer is a file whose numeric component is highest. In particular, when the
  names with the prefix are \<open>capture_1.jpg\<close> and \<open>capture_2.jpg\<close>, in any order of
  listing and among any other names, the answer is \<open>capture_2.jpg\<close>.
\<close>

theorem latest_capture_404_and_highest:
  "(listdir_fault w = None \<and> (\<forall>f\<in>set (files w). \<not> startswith f ''capture_'') \<longrightarrow>
      latest_capture w =
        (Response 404 [(''success'', JBool False), (''error'', JStr ''No captures found'')], w)) \<and>
   (listdir_fault w = None \<and> (\<exists>f\<in>set (files w). startswith f ''capture_'') \<and>
    (\<forall>f\<in>set (files w). startswith f ''capture_'' \<longrightarrow> (\<exists>k. capture_key f = Inr k)) \<longrightarrow>
      (\<exists>latest k.
         latest_capture w =
           (Response 200 [(''success'', JBool True), (''filename'', JStr latest)], w) \<and>
         latest \<in> set (files w) \<and> startswith latest ''capture_'' \<and>
         capture_key latest = Inr k \<and>
         (\<forall>f\<in>set (files w). startswith f ''capture_'' \<longrightarrow>
            (\<forall>j. capture_key f = Inr j \<longrightarrow> j \<le> k)))) \<and>
   (listdir_fault w = None \<and> (\<exists>f\<in>set (files w). startswith f ''capture_'') \<and>
    (\<forall>f\<in>set (files w). startswith f ''capture_'' \<longrightarrow>
       name_component f \<noteq> [] \<and> list_all is_decimal_char (name_component f)) \<longrightarrow>
      (\<exists>latest.
         latest_capture w =
           (Response 200 [(''success'', JBool True), (''filename'', JStr latest)], w) \<and>
         latest \<in> set (files w) \<and> startswith latest ''capture_'' \<and>
         (\<forall>f\<in>set (files w). startswith f ''capture_'' \<longrightarrow>
            dec_value (name_component f) \<le> dec_value (name_component latest)))) \<and>
   (listdir_fault w = None \<and>
    {f \<in> set (files w). startswith f ''capture_''} = {''capture_1.jpg'', ''capture_2.jpg''} \<longrightarrow>
      latest_capture w =
        (Response 200 [(''success'', JBool True), (''filename'', JStr ''capture_2.jpg'')], w))"
proof (intro conjI impI)
  assume "listdir_fault w = None \<and> (\<forall>f\<in>set (files w). \<not> startswith f ''capture_'')"
  then show "latest_capture w =
        (Response 404 [(''success'', JBool False), (''error'', JStr ''No captures found'')], w)"
    by (simp add: latest_capture_none)
next
  assume "listdir_fault w = None \<and> (\<exists>f\<in>set (files w). startswith f ''capture_'') \<and>
    (\<forall>f\<in>set (files w). startswith f ''capture_'' \<longrightarrow> (\<exists>k. capture_key f = Inr k))"
  then have l: "listdir_fault w = None" and ne: "\<exists>f\<in>set (files w). startswith f ''capture_''"
    and ks: "\<forall>f\<in>set (files w). startswith f ''capture_'' \<longrightarrow> (\<exists>k. capture_key f = Inr k)"
    by blast+
  show "\<exists>latest k.
         latest_capture w =
           (Response 200 [(''success'', JBool True), (''filename'', JStr latest)], w) \<and>
         latest \<in> set (files w) \<and> startswith latest ''capture_'' \<and>
         capture_key latest = Inr k \<and>
         (\<forall>f\<in>set (files w). startswith f ''capture_'' \<longrightarrow>
            (\<forall>j. capture_key f = Inr j \<longrightarrow> j \<le> k))"
    using l ne ks by (rule latest_capture_highest)
next
  assume "listdir_fault w = None \<and> (\<exists>f\<in>set (files w). startswith f ''capture_'') \<and>
    (\<forall>f\<in>set (files w). startswith f ''capture_'' \<longrightarrow>
       name_component f \<noteq> [] \<and> list_all is_decimal_char (name_component f))"
  then have l: "listdir_fault w = None" and ne: "\<exists>f\<in>set (files w). startswith f ''capture_''"
    and d: "\<forall>f\<in>set (files w). startswith f ''capture_'' \<longrightarrow>
       name_component f \<noteq> [] \<and> list_all is_decimal_char (name_component f)"
    by blast+
  have kd: "\<And>f. f \<in> set (files w) \<Longrightarrow> startswith f ''capture_'' \<Longrightarrow>
      capture_key f = Inr (dec_value (name_component f))"
    using d by (simp add: capture_key_decimal)
  then have ks: "\<forall>f\<in>set (files w). startswith f ''capture_'' \<longrightarrow> (\<exists>k. capture_key f = Inr k)"
    by blast
  from latest_capture_highest [OF l ne ks] obtain latest k where
    r: "latest_capture w =
        (Response 200 [(''success'', JBool True), (''filename'', JStr latest)], w)"
      "latest \<in> set (files w)" "startswith latest ''capture_''" "capture_key latest = Inr k"
      "\<forall>f\<in>set (files w). startswith f ''capture_'' \<longrightarrow>
         (\<forall>j. capture_key f = Inr j \<longrightarrow> j \<le> k)"
    by blast
  from kd [OF r(2) r(3)] r(4) have k: "k = dec_value (name_component latest)" by simp
  have "\<forall>f\<in>set (files w). startswith f ''capture_'' \<longrightarrow>
            dec_value (name_component f) \<le> dec_value (name_component latest)"
    using r(5) kd k by blast
  with r(1,2,3) show "\<exists>latest.
         latest_capture w =
           (Response 200 [(''success'', JBool True), (''filename'', JStr latest)], w) \<and>
         latest \<in> set (files w) \<and> startswith latest ''capture_'' \<and>
         (\<forall>f\<in>set (files w). startswith f ''capture_'' \<longrightarrow>
            dec_value (name_component f) \<le> dec_value (name_component latest))"
    by blast
next
  assume a: "listdir_fault w = None \<and>
    {f \<in> set (files w). startswith f ''capture_''} = {''capture_1.jpg'', ''capture_2.jpg''}"
  then have l: "listdir_fault w = None"
    and s: "{f \<in> set (files w). startswith f ''capture_''} = {''capture_1.jpg'', ''capture_2.jpg''}"
    by (rule conjunct1, rule conjunct2)
  have lt: "(1::int) < 2" by simp
  from latest_of_two [OF l s key_1 key_2 lt]
  show "latest_capture w =
        (Response 200 [(''success'', JBool True), (''filename'', JStr ''capture_2.jpg'')], w)" .
qed

theorem latest_capture_404_and_highest_witness:
  "latest_capture \<lparr>files = [''notes.txt''], listdir_fault = None,
                   cam_fault = (\<lambda>k. None), trace = []\<rparr> =
     (Response 404 [(''success'', JBool False), (''error'', JStr ''No captures found'')],
      \<lparr>files = [''notes.txt''], listdir_fault = None, cam_fault = (\<lambda>k. None), trace = []\<rparr>) \<and>
   latest_capture \<lparr>files = [''capture_9.jpg'', ''notes.txt'', ''capture_10.jpg''],
                   listdir_fault = None, cam_fault = (\<lambda>k. None), trace = []\<rparr> =
     (Response 200 [(''success'', JBool True), (''filename'', JStr ''capture_10.jpg'')],
      \<lparr>files = [''capture_9.jpg'', ''notes.txt'', ''capture_10.jpg''],
       listdir_fault = None, cam_fault = (\<lambda>k. None), trace = []\<rparr>) \<and>
   latest_capture \<lparr>files = [''capture_2.jpg'', ''notes.txt'', ''capture_1.jpg''],
                   listdir_fault = None, cam_fault = (\<lambda>k. None), trace = []\<rparr> =
     (Response 200 [(''success'', JBool True), (''filename'', JStr ''capture_2.jpg'')],
      \<lparr>files = [''capture_2.jpg'', ''notes.txt'', ''capture_1.jpg''],
       listdir_fault = None, cam_fault = (\<lambda>k. None), trace = []\<rparr>)"
proof -
  let ?w1 = "\<lparr>files = [''notes.txt''], listdir_fault = None,
              cam_fault = (\<lambda>k. None), trace = []\<rparr>"
  let ?w3 = "\<lparr>files = [''capture_9.jpg'', ''notes.txt'', ''capture_10.jpg''],
              listdir_fault = None, cam_fault = (\<lambda>k. None), trace = []\<rparr>"
  let ?w2 = "\<lparr>files = [''capture_2.jpg'', ''notes.txt'', ''capture_1.jpg''],
              listdir_fault = None, cam_fault = (\<lambda>k. None), trace = []\<rparr>"
  have f3: "files ?w3 = [''capture_9.jpg'', ''notes.txt'', ''capture_10.jpg'']" by simp
  have f2: "files ?w2 = [''capture_2.jpg'', ''notes.txt'', ''capture_1.jpg'']" by simp
  have h1: "listdir_fault ?w1 = None \<and> (\<forall>f\<in>set (files ?w1). \<not> startswith f ''capture_'')"
    using sw_notes by simp
  note a = latest_capture_404_and_highest [of ?w1, THEN conjunct1, THEN mp, OF h1]
  have ne: "\<exists>f\<in>set (files ?w3). startswith f ''capture_''"
    unfolding f3 bex_three using sw_9 by (rule disjI1)
  have ks: "\<forall>f\<in>set (files ?w3). startswith f ''capture_'' \<longrightarrow> (\<exists>k. capture_key f = Inr k)"
    unfolding f3 ball_three using key_9 key_10 sw_notes by blast
  have h3: "listdir_fault ?w3 = None \<and> (\<exists>f\<in>set (files ?w3). startswith f ''capture_'') \<and>
    (\<forall>f\<in>set (files ?w3). startswith f ''capture_'' \<longrightarrow> (\<exists>k. capture_key f = Inr k))"
    using ne ks by simp
  from latest_capture_404_and_highest [of ?w3, THEN conjunct2, THEN conjunct1, THEN mp, OF h3]
  obtain latest k where
    r: "latest_capture ?w3 =
        (Response 200 [(''success'', JBool True), (''filename'', JStr latest)], ?w3)"
      "latest \<in> set (files ?w3)" "startswith latest ''capture_''" "capture_key latest = Inr k"
      "\<forall>f\<in>set (files ?w3). startswith f ''capture_'' \<longrightarrow>
         (\<forall>j. capture_key f = Inr j \<longrightarrow> j \<le> k)"
    by (elim exE conjE)
  from r(5) have "startswith ''capture_10.jpg'' ''capture_'' \<longrightarrow>
         (\<forall>j. capture_key ''capture_10.jpg'' = Inr j \<longrightarrow> j \<le> k)"
    unfolding f3 ball_three by (elim conjE)
  with sw_10 key_10 have k10: "10 \<le> k" by blast
  from r(2) have m: "latest \<in> set [''capture_9.jpg'', ''notes.txt'', ''capture_10.jpg'']"
    unfolding f3 .
  have lt: "(9::int) < 10" by simp
  have "latest = ''capture_10.jpg''"
    using m r(3) sw_notes r(4) key_9 key_10 k10 lt
    by (rule pick_highest [where P = "\<lambda>f. startswith f ''capture_''" and key = capture_key])
  with r(1) have b: "latest_capture ?w3 =
        (Response 200 [(''success'', JBool True), (''filename'', JStr ''capture_10.jpg'')], ?w3)"
    by (simp only:)
  have "{f \<in> set (files ?w2). startswith f ''capture_''} = {''capture_1.jpg'', ''capture_2.jpg''}"
    unfolding f2
    using sw_1 sw_2 sw_notes
    by (rule prefixed_of_three [where P = "\<lambda>f. startswith f ''capture_''"])
  then have h2: "listdir_fault ?w2 = None \<and>
    {f \<in> set (files ?w2). startswith f ''capture_''} = {''capture_1.jpg'', ''capture_2.jpg''}"
    by simp
  note c = latest_capture_404_and_highest
    [of ?w2, THEN conjunct2, THEN conjunct2, THEN conjunct2, THEN mp, OF h2]
  from a b c show ?thesis by (intro conjI)
qed

text \<open>
  Claim C8: in every operation that scans the capture directory, a name that starts
  with \<open>capture_\<close> and has no numeric component is filtered out and never leads to an
  error or a 500 response. \<open>get_next_capture_number\<close> filters with \<open>isdigit\<close>;
  \<open>latest_capture\<close> applies \<open>int\<close> to the component of every name with the prefix,
  with no such filter. Evaluated on the directory that holds only \<open>capture_abc.jpg\<close>.
\<close>

theorem latest_capture_malformed_name_500:
  "latest_capture \<lparr>files = [''capture_abc.jpg''], listdir_fault = None, cam_fault = cf, trace = t\<rparr> =
     (Response 500 [(''success'', JBool False), (''error'', JStrOf (ValueError_literal ''abc''))],
      \<lparr>files = [''capture_abc.jpg''], listdir_fault = None, cam_fault = cf, trace = t\<rparr>)"
proof -
  let ?w = "\<lparr>files = [''capture_abc.jpg''], listdir_fault = None, cam_fault = cf, trace = t\<rparr>"
  have nf: "listdir_fault ?w = None" by simp
  have "filter (\<lambda>f. startswith f ''capture_'') (files ?w) = [''capture_abc.jpg'']"
    using sw_abc by simp
  from latest_capture_listing [OF nf this] show ?thesis by (simp only: max_key_abc) simp
qed

section \<open>The still capture\<close>

lemma calls_trace_append:
  "calls (w\<lparr>trace := trace w @ es\<rparr>) = calls w + length (filter is_cam es)"
  by (simp add: calls_def)

lemma picam2_ok:
  "cam_fault w (calls w) = None \<Longrightarrow>
   picam2 c w = (Inr (), w\<lparr>trace := trace w @ [Cam c None]\<rparr>)"
  by (simp add: picam2_def Let_def)

lemma picam2_raise:
  "cam_fault w (calls w) = Some m \<Longrightarrow>
   picam2 c w = (Inl (Raised m), w\<lparr>trace := trace w @ [Cam c (Some m)]\<rparr>)"
  by (simp add: picam2_def Let_def)

lemma all_less_7: "(\<forall>k<(7::nat). P k) \<longleftrightarrow> P 0 \<and> P 1 \<and> P 2 \<and> P 3 \<and> P 4 \<and> P 5 \<and> P 6"
proof -
  have "\<And>k::nat. k < 7 \<longleftrightarrow> k = 0 \<or> k = 1 \<or> k = 2 \<or> k = 3 \<or> k = 4 \<or> k = 5 \<or> k = 6"
    by arith
  then show ?thesis by auto
qed

lemma capture_recover_trace:
  "\<exists>suf. trace (snd (capture_recover g w)) = trace w @ suf \<and>
         attempt_of [Stop, Configure (g_video_config g), Start] suf"
proof (cases "cam_fault w (calls w)")
  case (Some m)
  then show ?thesis
    by (simp add: capture_recover_def then_do_def picam2_raise)
next
  case n0: None
  let ?w1 = "w\<lparr>trace := trace w @ [Cam Stop None]\<rparr>"
  have c1: "calls ?w1 = Suc (calls w)" by (simp add: calls_def)
  show ?thesis
  proof (cases "cam_fault w (Suc (calls w))")
    case (Some m)
    then have "picam2 (Configure (g_video_config g)) ?w1 =
      (Inl (Raised m), ?w1\<lparr>trace := trace ?w1 @ [Cam (Configure (g_video_config g)) (Some m)]\<rparr>)"
      using c1 by (intro picam2_raise) simp
    then show ?thesis
      using n0 by (simp add: capture_recover_def then_do_def picam2_ok)
  next
    case n1: None
    then have s1: "picam2 (Configure (g_video_config g)) ?w1 =
      (Inr (), ?w1\<lparr>trace := trace ?w1 @ [Cam (Configure (g_video_config g)) None]\<rparr>)"
      using c1 by (intro picam2_ok) simp
    let ?w2 = "w\<lparr>trace := trace w @ [Cam Stop None, Cam (Configure (g_video_config g)) None]\<rparr>"
    have c2: "calls ?w2 = Suc (Suc (calls w))" by (simp add: calls_def)
    show ?thesis
    proof (cases "cam_fault w (Suc (Suc (calls w)))")
      case (Some m)
      then have "picam2 Start ?w2 = (Inl (Raised m), ?w2\<lparr>trace := trace ?w2 @ [Cam Start (Some m)]\<rparr>)"
        using c2 by (intro picam2_raise) simp
      then show ?thesis
        using n0 s1 by (simp add: capture_recover_def then_do_def picam2_ok)
    next
      case None
      then have "picam2 Start ?w2 = (Inr (), ?w2\<lparr>trace := trace ?w2 @ [Cam Start None]\<rparr>)"
        using c2 by (intro picam2_ok) simp
      then show ?thesis
        using n0 s1 by (simp add: capture_recover_def then_do_def picam2_ok)
    qed
  qed
qed


lemma capture_try_ok:
  assumes l: "listdir_fault w = None" and n: "get_next_capture_number (files w) = Inr n"
    and f: "\<forall>k<7. cam_fault w (calls w + k) = None"
  shows "capture_try g w =
    (Inr (''capture_'' @ str_int n @ ''.jpg''), w\<lparr>trace := (trace w @
        [Cam Stop None, Cam (Configure (g_still_config g)) None, Cam Start None] @
        (if g_is_v3 g then [Sleep_ms 500] else []) @
        [Cam (CaptureFile (''captures/capture_'' @ str_int n @ ''.jpg'')) None,
         Cam Stop None, Cam (Configure (g_video_config g)) None, Cam Start None])\<rparr>)"
proof -
  let ?c = "length (filter is_cam (trace w))"
  from f have "cam_fault w (?c + 0) = None" "cam_fault w (?c + 1) = None"
    "cam_fault w (?c + 2) = None" "cam_fault w (?c + 3) = None" "cam_fault w (?c + 4) = None"
    "cam_fault w (?c + 5) = None" "cam_fault w (?c + 6) = None"
    unfolding all_less_7 calls_def by blast+
  then have fs: "cam_fault w ?c = None" "cam_fault w (Suc ?c) = None"
    "cam_fault w (Suc (Suc ?c)) = None" "cam_fault w (Suc (Suc (Suc ?c))) = None"
    "cam_fault w (Suc (Suc (Suc (Suc ?c)))) = None"
    "cam_fault w (Suc (Suc (Suc (Suc (Suc ?c))))) = None"
    "cam_fault w (Suc (Suc (Suc (Suc (Suc (Suc ?c)))))) = None"
    by (simp_all add: numeral_eq_Suc)
  show ?thesis
    using l n fs
    by (simp add: capture_try_def get_next_capture_number_io_def then_do_def os_listdir_def
        picam2_def Let_def calls_def time_sleep_ms_def return_def 
        path_join_def CAPTURE_FOLDER_def startswith_def)
qed


lemma capture_try_Inr:
  assumes "capture_try g w = (Inr fn, w')"
  shows "listdir_fault w = None \<and> (\<exists>n. get_next_capture_number (files w) = Inr n) \<and>
         (\<forall>k<7. cam_fault w (calls w + k) = None)"
proof -
  let ?c = "length (filter is_cam (trace w))"
  from assms have "listdir_fault w = None \<and> (\<exists>n. get_next_capture_number (files w) = Inr n) \<and>
    cam_fault w ?c = None \<and> cam_fault w (Suc ?c) = None \<and>
    cam_fault w (Suc (Suc ?c)) = None \<and> cam_fault w (Suc (Suc (Suc ?c))) = None \<and>
    cam_fault w (Suc (Suc (Suc (Suc ?c)))) = None \<and>
    cam_fault w (Suc (Suc (Suc (Suc (Suc ?c))))) = None \<and>
    cam_fault w (Suc (Suc (Suc (Suc (Suc (Suc ?c)))))) = None"
    by (simp add: capture_try_def get_next_capture_number_io_def then_do_def os_listdir_def
        picam2_def Let_def calls_def time_sleep_ms_def return_def
        split: option.splits sum.splits if_splits)
  then show ?thesis
    unfolding all_less_7 calls_def by (simp add: numeral_eq_Suc)
qed

lemma capture_try_fail:
  assumes "\<not> (listdir_fault w = None \<and> (\<exists>n. get_next_capture_number (files w) = Inr n) \<and>
         (\<forall>k<7. cam_fault w (calls w + k) = None))"
  shows "\<exists>e w'. capture_try g w = (Inl e, w')"
proof (cases "capture_try g w")
  case (Pair r w')
  show ?thesis
  proof (cases r)
    case (Inl e)
    with Pair show ?thesis by blast
  next
    case (Inr fn)
    with Pair have "capture_try g w = (Inr fn, w')" by simp
    from capture_try_Inr [OF this] assms show ?thesis by blast
  qed
qed


lemma capture_try_trace:
  "\<exists>pre. trace (snd (capture_try g w)) = trace w @ pre"
  by (simp add: capture_try_def get_next_capture_number_io_def then_do_def os_listdir_def
      picam2_def Let_def time_sleep_ms_def return_def
      split: option.splits sum.splits)

lemma next_after_3: "get_next_capture_number [''capture_3.jpg''] = Inr 4" by code_simp
lemma str_int_4: "str_int 4 = ''4''" by code_simp

text \<open>
  Claim C2: in every execution of the \<open>/capture\<close> handler, whether the primary
  sequence succeeds or raises, the last camera calls before it returns are an attempt
  to restore streaming: stop, configure with the streaming configuration, start, cut
  short only by a call that raises. When the primary sequence raises \<open>e\<close>, the response
  is 500 with \<open>success\<close> false and the error \<open>str(e)\<close>, whatever the restoration does:
  the final state is the one the restoration leaves, and an exception it raises appears
  nowhere in the response.
\<close>

theorem capture_restores_and_reports:
  "(\<exists>pre suf. trace (snd (capture g w)) = trace w @ pre @ suf \<and>
      attempt_of [Stop, Configure (g_video_config g), Start] suf) \<and>
   (capture_try g w = (Inl e, w1) \<longrightarrow>
      capture g w =
        (Response 500 [(''success'', JBool False), (''error'', JStrOf e)],
         snd (capture_recover g w1)) \<and>
      (\<exists>suf. trace (snd (capture_recover g w1)) = trace w1 @ suf \<and>
         attempt_of [Stop, Configure (g_video_config g), Start] suf))"
proof (intro conjI impI)
  show "\<exists>pre suf. trace (snd (capture g w)) = trace w @ pre @ suf \<and>
      attempt_of [Stop, Configure (g_video_config g), Start] suf"
  proof (cases "capture_try g w")
    case (Pair r w')
    show ?thesis
    proof (cases r)
      case (Inl e')
      from capture_try_trace [of g w] Pair obtain pre where p: "trace w' = trace w @ pre"
        by auto
      from capture_recover_trace [of g w'] obtain suf
        where s: "trace (snd (capture_recover g w')) = trace w' @ suf"
          and a: "attempt_of [Stop, Configure (g_video_config g), Start] suf"
        by blast
      have "trace (snd (capture g w)) = trace (snd (capture_recover g w'))"
        using Pair Inl by (simp add: capture_def split: prod.splits)
      with p s have "trace (snd (capture g w)) = trace w @ pre @ suf" by simp
      with a show ?thesis by blast
    next
      case (Inr fn)
      with Pair have ok: "capture_try g w = (Inr fn, w')" by simp
      from capture_try_Inr [OF ok] obtain n where l: "listdir_fault w = None"
        and n: "get_next_capture_number (files w) = Inr n"
        and f: "\<forall>k<7. cam_fault w (calls w + k) = None"
        by blast
      let ?pre = "[Cam Stop None, Cam (Configure (g_still_config g)) None, Cam Start None] @
        (if g_is_v3 g then [Sleep_ms 500] else []) @
        [Cam (CaptureFile (''captures/capture_'' @ str_int n @ ''.jpg'')) None]"
      let ?suf = "[Cam Stop None, Cam (Configure (g_video_config g)) None, Cam Start None]"
      have "trace (snd (capture g w)) = trace w @ ?pre @ ?suf"
        using capture_try_ok [OF l n f, of g] by (simp add: capture_def)
      moreover have "attempt_of [Stop, Configure (g_video_config g), Start] ?suf" by simp
      ultimately show ?thesis by blast
    qed
  qed
next
  assume t: "capture_try g w = (Inl e, w1)"
  then show "capture g w =
        (Response 500 [(''success'', JBool False), (''error'', JStrOf e)],
         snd (capture_recover g w1))"
    by (simp add: capture_def split: prod.splits)
next
  assume "capture_try g w = (Inl e, w1)"
  show "\<exists>suf. trace (snd (capture_recover g w1)) = trace w1 @ suf \<and>
         attempt_of [Stop, Configure (g_video_config g), Start] suf"
    by (rule capture_recover_trace)
qed

theorem capture_restores_and_reports_witness:
  "capture
     \<lparr>g_camera_info = FunctionObj ''camera_info'' ''7f3a'', g_is_v3 = False,
      g_video_config = \<lparr>kind = VideoConfiguration, main_size = Some (640, 480), controls = []\<rparr>,
      g_still_config = \<lparr>kind = StillConfiguration, main_size = None, controls = []\<rparr>\<rparr>
     \<lparr>files = [''capture_3.jpg''], listdir_fault = None,
      cam_fault = (\<lambda>k. if k = 3 then Some ''Camera timeout''
                        else if k = 4 then Some ''Device busy'' else None),
      trace = []\<rparr> =
     (Response 500 [(''success'', JBool False), (''error'', JStrOf (Raised ''Camera timeout''))],
      \<lparr>files = [''capture_3.jpg''], listdir_fault = None,
       cam_fault = (\<lambda>k. if k = 3 then Some ''Camera timeout''
                         else if k = 4 then Some ''Device busy'' else None),
       trace = [Cam Stop None,
                Cam (Configure \<lparr>kind = StillConfiguration, main_size = None, controls = []\<rparr>) None,
                Cam Start None,
                Cam (CaptureFile ''captures/capture_4.jpg'') (Some ''Camera timeout''),
                Cam Stop (Some ''Device busy'')]\<rparr>)"
proof -
  let ?g = "\<lparr>g_camera_info = FunctionObj ''camera_info'' ''7f3a'', g_is_v3 = False,
      g_video_config = \<lparr>kind = VideoConfiguration, main_size = Some (640, 480), controls = []\<rparr>,
      g_still_config = \<lparr>kind = StillConfiguration, main_size = None, controls = []\<rparr>\<rparr>"
  let ?cf = "\<lambda>k::nat. if k = 3 then Some ''Camera timeout''
                        else if k = 4 then Some ''Device busy'' else None"
  let ?w = "\<lparr>files = [''capture_3.jpg''], listdir_fault = None, cam_fault = ?cf, trace = []\<rparr>"
  let ?w1 = "\<lparr>files = [''capture_3.jpg''], listdir_fault = None, cam_fault = ?cf,
       trace = [Cam Stop None,
                Cam (Configure \<lparr>kind = StillConfiguration, main_size = None, controls = []\<rparr>) None,
                Cam Start None,
                Cam (CaptureFile ''captures/capture_4.jpg'') (Some ''Camera timeout'')]\<rparr>"
  have t: "capture_try ?g ?w = (Inl (Raised ''Camera timeout''), ?w1)"
    by (simp add: capture_try_def get_next_capture_number_io_def then_do_def os_listdir_def
        picam2_def Let_def calls_def return_def next_after_3 str_int_4
        path_join_def CAPTURE_FOLDER_def startswith_def)
  have r: "snd (capture_recover ?g ?w1) =
     \<lparr>files = [''capture_3.jpg''], listdir_fault = None, cam_fault = ?cf,
       trace = [Cam Stop None,
                Cam (Configure \<lparr>kind = StillConfiguration, main_size = None, controls = []\<rparr>) None,
                Cam Start None,
                Cam (CaptureFile ''captures/capture_4.jpg'') (Some ''Camera timeout''),
                Cam Stop (Some ''Device busy'')]\<rparr>"
    by (simp add: capture_recover_def then_do_def picam2_def Let_def calls_def)
  note a = capture_restores_and_reports
    [of ?g ?w "Raised ''Camera timeout''" ?w1, THEN conjunct2, THEN mp, OF t, THEN conjunct1]
  from a r show ?thesis by simp
qed

text \<open>
  Claim C3: when the listing, the numbering and all seven camera calls succeed, the
  handler makes exactly these calls in this order: stop, configure with the still
  configuration, start, then a sleep of 500 ms only under the V3 profile, then one
  capture to the file \<open>captures/capture_n.jpg\<close> where \<open>n\<close> is the next capture number of
  the directory, then stop, configure with the streaming configuration, start; and it
  answers 200 with \<open>success\<close> true and that file name. In every other case it answers
  500 with \<open>success\<close> false and an error.
\<close>

theorem capture_sequence:
  "(listdir_fault w = None \<and> get_next_capture_number (files w) = Inr n \<and>
    (\<forall>k<7. cam_fault w (calls w + k) = None) \<longrightarrow>
      capture g w =
        (Response 200 [(''success'', JBool True),
                       (''filename'', JStr (''capture_'' @ str_int n @ ''.jpg''))],
         w\<lparr>trace := trace w @
            [Cam Stop None, Cam (Configure (g_still_config g)) None, Cam Start None] @
            (if g_is_v3 g then [Sleep_ms 500] else []) @
            [Cam (CaptureFile (''captures/capture_'' @ str_int n @ ''.jpg'')) None,
             Cam Stop None, Cam (Configure (g_video_config g)) None, Cam Start None]\<rparr>)) \<and>
   (\<not> (listdir_fault w = None \<and> (\<exists>n. get_next_capture_number (files w) = Inr n) \<and>
        (\<forall>k<7. cam_fault w (calls w + k) = None)) \<longrightarrow>
      (\<exists>e. fst (capture g w) =
         Response 500 [(''success'', JBool False), (''error'', JStrOf e)]))"
proof (intro conjI impI)
  assume "listdir_fault w = None \<and> get_next_capture_number (files w) = Inr n \<and>
    (\<forall>k<7. cam_fault w (calls w + k) = None)"
  then have l: "listdir_fault w = None" and n: "get_next_capture_number (files w) = Inr n"
    and f: "\<forall>k<7. cam_fault w (calls w + k) = None"
    by blast+
  show "capture g w =
        (Response 200 [(''success'', JBool True),
                       (''filename'', JStr (''capture_'' @ str_int n @ ''.jpg''))],
         w\<lparr>trace := trace w @
            [Cam Stop None, Cam (Configure (g_still_config g)) None, Cam Start None] @
            (if g_is_v3 g then [Sleep_ms 500] else []) @
            [Cam (CaptureFile (''captures/capture_'' @ str_int n @ ''.jpg'')) None,
             Cam Stop None, Cam (Configure (g_video_config g)) None, Cam Start None]\<rparr>)"
    using capture_try_ok [OF l n f, of g] by (simp add: capture_def)
next
  assume "\<not> (listdir_fault w = None \<and> (\<exists>n. get_next_capture_number (files w) = Inr n) \<and>
        (\<forall>k<7. cam_fault w (calls w + k) = None))"
  from capture_try_fail [OF this, of g] obtain e w' where "capture_try g w = (Inl e, w')"
    by blast
  then have "fst (capture g w) = Response 500 [(''success'', JBool False), (''error'', JStrOf e)]"
    by (simp add: capture_def split: prod.splits)
  then show "\<exists>e. fst (capture g w) =
         Response 500 [(''success'', JBool False), (''error'', JStrOf e)]" ..
qed

theorem capture_sequence_witness:
  "capture
     \<lparr>g_camera_info = FunctionObj ''camera_info'' ''7f3a'', g_is_v3 = False,
      g_video_config = \<lparr>kind = VideoConfiguration, main_size = Some (640, 480), controls = []\<rparr>,
      g_still_config = \<lparr>kind = StillConfiguration, main_size = None, controls = []\<rparr>\<rparr>
     \<lparr>files = [''capture_3.jpg''], listdir_fault = None, cam_fault = (\<lambda>k. None), trace = []\<rparr> =
     (Response 200 [(''success'', JBool True), (''filename'', JStr ''capture_4.jpg'')],
      \<lparr>files = [''capture_3.jpg''], listdir_fault = None, cam_fault = (\<lambda>k. None),
       trace = [Cam Stop None,
                Cam (Configure \<lparr>kind = StillConfiguration, main_size = None, controls = []\<rparr>) None,
                Cam Start None,
                Cam (CaptureFile ''captures/capture_4.jpg'') None,
                Cam Stop None,
                Cam (Configure \<lparr>kind = VideoConfiguration, main_size = Some (640, 480),
                                controls = []\<rparr>) None,
                Cam Start None]\<rparr>) \<and>
   (\<exists>e. fst (capture
     \<lparr>g_camera_info = FunctionObj ''camera_info'' ''7f3a'', g_is_v3 = False,
      g_video_config = \<lparr>kind = VideoConfiguration, main_size = Some (640, 480), controls = []\<rparr>,
      g_still_config = \<lparr>kind = StillConfiguration, main_size = None, controls = []\<rparr>\<rparr>
     \<lparr>files = [''capture_3.jpg''], listdir_fault = None,
      cam_fault = (\<lambda>k. if k = 3 then Some ''Camera timeout'' else None), trace = []\<rparr>) =
     Response 500 [(''success'', JBool False), (''error'', JStrOf e)])"
proof -
  let ?g = "\<lparr>g_camera_info = FunctionObj ''camera_info'' ''7f3a'', g_is_v3 = False,
      g_video_config = \<lparr>kind = VideoConfiguration, main_size = Some (640, 480), controls = []\<rparr>,
      g_still_config = \<lparr>kind = StillConfiguration, main_size = None, controls = []\<rparr>\<rparr>"
  let ?w = "\<lparr>files = [''capture_3.jpg''], listdir_fault = None, cam_fault = (\<lambda>k. None),
             trace = []\<rparr>"
  let ?b = "\<lparr>files = [''capture_3.jpg''], listdir_fault = None,
      cam_fault = (\<lambda>k. if k = 3 then Some ''Camera timeout'' else None), trace = []\<rparr>"
  have h: "listdir_fault ?w = None \<and> get_next_capture_number (files ?w) = Inr 4 \<and>
    (\<forall>k<7. cam_fault ?w (calls ?w + k) = None)"
    by (simp add: next_after_3)
  have "cam_fault ?b (calls ?b + 3) \<noteq> None" by (simp add: calls_def)
  then have "\<not> (\<forall>k<7. cam_fault ?b (calls ?b + k) = None)"
    by (intro notI) (drule spec [of _ 3], simp)
  then have hb: "\<not> (listdir_fault ?b = None \<and> (\<exists>n. get_next_capture_number (files ?b) = Inr n) \<and>
        (\<forall>k<7. cam_fault ?b (calls ?b + k) = None))"
    by blast
  note a = capture_sequence [of ?w 4 ?g, THEN conjunct1, THEN mp, OF h]
  note b = capture_sequence [of ?b 0 ?g, THEN conjunct2, THEN mp, OF hb]
  from a have c: "capture ?g ?w =
     (Response 200 [(''success'', JBool True), (''filename'', JStr ''capture_4.jpg'')],
      \<lparr>files = [''capture_3.jpg''], listdir_fault = None, cam_fault = (\<lambda>k. None),
       trace = [Cam Stop None,
                Cam (Configure \<lparr>kind = StillConfiguration, main_size = None, controls = []\<rparr>) None,
                Cam Start None,
                Cam (CaptureFile ''captures/capture_4.jpg'') None,
                Cam Stop None,
                Cam (Configure \<lparr>kind = VideoConfiguration, main_size = Some (640, 480),
                                controls = []\<rparr>) None,
                Cam Start None]\<rparr>)"
    by (simp add: str_int_4)
  from c b show ?thesis by (rule conjI)
qed

end
